theory Spec2Isabelle
  imports Main
begin

section \<open>Strings, records and errors\<close>

text \<open>
  A Go \<^verbatim>\<open>string\<close> is a sequence of bytes, here a \<^typ>\<open>char list\<close>. A
  \<^verbatim>\<open>map[string]string\<close> (one row of the \<^verbatim>\<open>ps\<close> table) is a partial map.
  Reading a missing key of a Go map gives the empty string.
\<close>

type_synonym Record = "string \<rightharpoonup> string"

definition lookup :: "Record \<Rightarrow> string \<Rightarrow> string" where
  "lookup stat key = (case stat key of None \<Rightarrow> [] | Some v \<Rightarrow> v)"

text \<open>
  The errors of the package are built with \<^verbatim>\<open>errors.New\<close> and \<^verbatim>\<open>fmt.Errorf\<close>; each
  constructor below stands for one message format and carries the values the format prints.
  \<^item> \<^verbatim>\<open>"Metric %q is not found or empty"\<close> (key)
  \<^item> \<^verbatim>\<open>"Parsing metric %s %q: %s"\<close> (key, value, the \<^verbatim>\<open>strconv\<close> error)
  \<^item> \<^verbatim>\<open>"Parsing metric %s %q: negative value"\<close> (key, value)
  \<^item> \<^verbatim>\<open>"Root process with pid 1 is not found"\<close>
  \<^item> \<^verbatim>\<open>"Invalid header in 'ps' output: %q"\<close> (the header fields)
  \<^item> \<^verbatim>\<open>"Invalid number of columns (%d instead of %d): %q"\<close> (got, expected, the fields)
\<close>

datatype numError = ErrSyntax | ErrRange

datatype error =
    MissingFieldError string
  | NumberFormatError string string numError
  | NegativeValueError string string
  | RootNotFoundError
  | HeaderError "string list"
  | RowShapeError nat nat "string list"

section \<open>\<^verbatim>\<open>strconv.Atoi\<close>\<close>

text \<open>
  \<^verbatim>\<open>strconv.Atoi(s)\<close> is \<^verbatim>\<open>ParseInt(s, 10, 0)\<close> of the Go standard library: an optional
  sign, then one or more decimal digits, read left to right into an unsigned accumulator.
  A byte that is not a digit is \<^verbatim>\<open>ErrSyntax\<close>; an accumulator that leaves the unsigned range
  of the machine word is \<^verbatim>\<open>ErrRange\<close>, as is a final value outside the signed range.
  \<^verbatim>\<open>intSize\<close> is \<^verbatim>\<open>strconv.IntSize\<close>, the width of Go's \<^verbatim>\<open>int\<close> on a 64-bit platform.
\<close>

definition intSize :: nat where
  "intSize = 64"

definition isDigit :: "char \<Rightarrow> bool" where
  "isDigit c \<longleftrightarrow> 48 \<le> (of_char c :: nat) \<and> (of_char c :: nat) \<le> 57"

definition digitVal :: "char \<Rightarrow> nat" where
  "digitVal c = (of_char c :: nat) - 48"

fun ParseUint_loop :: "nat \<Rightarrow> string \<Rightarrow> numError + nat" where
  "ParseUint_loop n [] = Inr n"
| "ParseUint_loop n (c # cs) =
     (if \<not> isDigit c then Inl ErrSyntax
      else if n * 10 + digitVal c > 2 ^ intSize - 1 then Inl ErrRange
      else ParseUint_loop (n * 10 + digitVal c) cs)"

definition ParseUint :: "string \<Rightarrow> numError + nat" where
  "ParseUint s = (if s = [] then Inl ErrSyntax else ParseUint_loop 0 s)"

definition Atoi :: "string \<Rightarrow> numError + int" where
  "Atoi s =
     (if s = [] then Inl ErrSyntax
      else
        let neg = (hd s = CHR ''-'');
            s' = (if hd s = CHR ''+'' \<or> hd s = CHR ''-'' then tl s else s)
        in case ParseUint s' of
             Inl ErrSyntax \<Rightarrow> Inl ErrSyntax
           | r \<Rightarrow>
               let un = (case r of Inr n \<Rightarrow> n | Inl _ \<Rightarrow> 2 ^ intSize - 1);
                   cutoff = 2 ^ (intSize - 1)
               in if \<not> neg \<and> un \<ge> cutoff then Inl ErrRange
                  else if neg \<and> un > cutoff then Inl ErrRange
                  else Inr (if neg then - int un else int un))"

section \<open>\<^verbatim>\<open>getPid\<close>\<close>

text \<open>
  \<^verbatim>\<open>getPid\<close> (src/rstat.go, lines 266 to 280; the same text in the second revision of the
  file): reads a pid or a similar non-negative integer from a record.
\<close>

definition getPid :: "Record \<Rightarrow> string \<Rightarrow> error + int" where
  "getPid stat key =
     (let str = lookup stat key
      in if length str = 0 then Inl (MissingFieldError key)
         else case Atoi str of
                Inl e \<Rightarrow> Inl (NumberFormatError key str e)
              | Inr val \<Rightarrow>
                  if val < 0 then Inl (NegativeValueError key str) else Inr val)"

text \<open>
  The words of the specification: a base-10 integer literal is an optional sign followed by
  one or more decimal digits, and it denotes the usual number.
\<close>

definition literalDigits :: "string \<Rightarrow> string" where
  "literalDigits s = (if s \<noteq> [] \<and> (hd s = CHR ''+'' \<or> hd s = CHR ''-'') then tl s else s)"

definition isIntLiteral :: "string \<Rightarrow> bool" where
  "isIntLiteral s \<longleftrightarrow> literalDigits s \<noteq> [] \<and> list_all isDigit (literalDigits s)"

definition digitsValue :: "string \<Rightarrow> nat" where
  "digitsValue ds = foldl (\<lambda>n c. n * 10 + digitVal c) 0 ds"

definition literalValue :: "string \<Rightarrow> int" where
  "literalValue s =
     (if s \<noteq> [] \<and> hd s = CHR ''-'' then - int (digitsValue (literalDigits s))
      else int (digitsValue (literalDigits s)))"

definition inIntRange :: "int \<Rightarrow> bool" where
  "inIntRange v \<longleftrightarrow> - (2 ^ (intSize - 1)) \<le> v \<and> v < 2 ^ (intSize - 1)"

section \<open>White space, fields and splitting\<close>

text \<open>
  \<^verbatim>\<open>unicode.IsSpace\<close> on the UTF-8 bytes of a string: \<^verbatim>\<open>spaceWidth s\<close> is the number of
  bytes of the white-space rune that \<^verbatim>\<open>s\<close> starts with, or 0. The runes are U+0009 to
  U+000D, U+0020, U+0085, U+00A0, U+1680, U+2000 to U+200A, U+2028, U+2029, U+202F, U+205F
  and U+3000. A lead byte of UTF-8 is never a continuation byte, so scanning byte by byte
  finds the same runes as decoding does.
\<close>

definition asciiSpace :: "char \<Rightarrow> bool" where
  "asciiSpace c \<longleftrightarrow> (of_char c :: nat) \<in> {9, 10, 11, 12, 13, 32}"

fun spaceWidth :: "string \<Rightarrow> nat" where
  "spaceWidth [] = 0"
| "spaceWidth [c] = (if asciiSpace c then 1 else 0)"
| "spaceWidth [c, d] =
     (if asciiSpace c then 1
      else if (of_char c :: nat) = 194 \<and> (of_char d :: nat) \<in> {133, 160} then 2
      else 0)"
| "spaceWidth (c # d # e # rest) =
     (let b0 = (of_char c :: nat); b1 = (of_char d :: nat); b2 = (of_char e :: nat)
      in if asciiSpace c then 1
         else if b0 = 194 \<and> b1 \<in> {133, 160} then 2
         else if b0 = 225 \<and> b1 = 154 \<and> b2 = 128 then 3
         else if b0 = 226 \<and> b1 = 128 \<and> ((128 \<le> b2 \<and> b2 \<le> 138) \<or> b2 \<in> {168, 169, 175}) then 3
         else if b0 = 226 \<and> b1 = 129 \<and> b2 = 159 then 3
         else if b0 = 227 \<and> b1 = 128 \<and> b2 = 128 then 3
         else 0)"

text \<open>The width of the white-space rune a string ends with, or 0.\<close>

definition spaceWidthLast :: "string \<Rightarrow> nat" where
  "spaceWidthLast s =
     (let n = length s
      in if 1 \<le> n \<and> spaceWidth (drop (n - 1) s) = 1 then 1
         else if 2 \<le> n \<and> spaceWidth (drop (n - 2) s) = 2 then 2
         else if 3 \<le> n \<and> spaceWidth (drop (n - 3) s) = 3 then 3
         else 0)"

text \<open>\<^verbatim>\<open>strings.TrimSpace\<close>: all leading and trailing white space removed.\<close>

function trimLeft :: "string \<Rightarrow> string" where
  "trimLeft s = (if spaceWidth s = 0 then s else trimLeft (drop (spaceWidth s) s))"
  by pat_completeness auto
termination
proof (relation "measure length")
  show "wf (measure length)" by simp
next
  fix s :: string
  assume "spaceWidth s \<noteq> 0"
  then have "s \<noteq> []" by (cases s) simp_all
  with \<open>spaceWidth s \<noteq> 0\<close> show "(drop (spaceWidth s) s, s) \<in> measure length" by simp
qed

function trimRight :: "string \<Rightarrow> string" where
  "trimRight s =
     (if spaceWidthLast s = 0 then s else trimRight (take (length s - spaceWidthLast s) s))"
  by pat_completeness auto
termination
proof (relation "measure length")
  show "wf (measure length)" by simp
next
  fix s :: string
  assume "spaceWidthLast s \<noteq> 0"
  then have "0 < spaceWidthLast s" and "s \<noteq> []"
    by (auto simp: spaceWidthLast_def Let_def split: if_splits)
  then show "(take (length s - spaceWidthLast s) s, s) \<in> measure length" by simp
qed

definition TrimSpace :: "string \<Rightarrow> string" where
  "TrimSpace s = trimRight (trimLeft s)"

text \<open>
  \<^verbatim>\<open>strings.Fields\<close>: the maximal runs of bytes that hold no white space, in order; no
  field is empty.
\<close>

function Fields_scan :: "string \<Rightarrow> string \<Rightarrow> string list" where
  "Fields_scan cur [] = (if cur = [] then [] else [cur])"
| "Fields_scan cur (c # cs) =
     (if spaceWidth (c # cs) > 0
      then (if cur = [] then [] else [cur]) @ Fields_scan [] (drop (spaceWidth (c # cs)) (c # cs))
      else Fields_scan (cur @ [c]) cs)"
  by pat_completeness auto
termination
proof (relation "measure (\<lambda>(cur, s). length s)")
  show "wf (measure (\<lambda>(cur, s). length s))" by simp
next
  fix cur :: string and c cs
  assume "0 < spaceWidth (c # cs)"
  then show "(([], drop (spaceWidth (c # cs)) (c # cs)), (cur, c # cs)) \<in> measure (\<lambda>(cur, s). length s)"
    by simp
next
  fix cur :: string and c cs
  show "((cur @ [c], cs), (cur, c # cs)) \<in> measure (\<lambda>(cur, s). length s)" by simp
qed

definition Fields :: "string \<Rightarrow> string list" where
  "Fields s = Fields_scan [] s"

text \<open>
  \<^verbatim>\<open>wsRe = regexp.MustCompile(`\s+`)\<close> (src/rstat.go, line 215). The class \<^verbatim>\<open>\s\<close> of Go's
  regular expressions is tab, line feed, form feed, carriage return and space.
  \<^verbatim>\<open>wsRe.Split(s, n)\<close> for \<^verbatim>\<open>n \<ge> 0\<close>: nothing for \<^verbatim>\<open>n = 0\<close>; otherwise the text is cut at
  the first \<^verbatim>\<open>n - 1\<close> maximal runs of \<^verbatim>\<open>\s\<close>, and the last piece is the unsplit remainder.
\<close>

definition reSpace :: "char \<Rightarrow> bool" where
  "reSpace c \<longleftrightarrow> (of_char c :: nat) \<in> {9, 10, 12, 13, 32}"

fun wsRe_Split :: "string \<Rightarrow> nat \<Rightarrow> string list" where
  "wsRe_Split s 0 = []"
| "wsRe_Split s (Suc 0) = [s]"
| "wsRe_Split s (Suc (Suc k)) =
     (let pre = takeWhile (\<lambda>c. \<not> reSpace c) s;
          rest = dropWhile (\<lambda>c. \<not> reSpace c) s
      in if rest = [] then [s]
         else pre # wsRe_Split (dropWhile reSpace rest) (Suc k))"

section \<open>The table parser\<close>

text \<open>
  \<^verbatim>\<open>psParser\<close> (src/rstat.go, lines 179 to 213). \<^verbatim>\<open>Enter\<close> reads the table header and
  \<^verbatim>\<open>read\<close> one data row; each returns the next state of the parser or the error.
\<close>

record psParser =
  header :: "string list"
  stats :: "Record list"

text \<open>The loop \<^verbatim>\<open>for i, s := range fields { m[p.header[i]] = s }\<close> of \<^verbatim>\<open>read\<close>.\<close>

fun zipRecord :: "string list \<Rightarrow> string list \<Rightarrow> Record \<Rightarrow> Record" where
  "zipRecord (h # hs) (f # fs) m = zipRecord hs fs (m(h \<mapsto> f))"
| "zipRecord hs fs m = m"

definition Enter :: "psParser \<Rightarrow> string \<Rightarrow> error + psParser" where
  "Enter p line =
     (let p' = p\<lparr>stats := [], header := Fields line\<rparr>
      in if length (header p') < 2 then Inl (HeaderError (header p')) else Inr p')"

definition read :: "psParser \<Rightarrow> string \<Rightarrow> error + psParser" where
  "read p line =
     (let fields = wsRe_Split line (length (header p))
      in if length fields \<noteq> length (header p)
         then Inl (RowShapeError (length fields) (length (header p)) fields)
         else Inr (p\<lparr>stats := stats p @ [zipRecord (header p) fields Map.empty]\<rparr>))"

text \<open>
  Modelled from the spec: \<^verbatim>\<open>Parse\<close> of the library \<^verbatim>\<open>github.com/maxim2266/strit\<close>, which
  drives the parser and is not part of the repository. The first line goes to \<^verbatim>\<open>Enter\<close>,
  every later line to the function the previous call returned (always \<^verbatim>\<open>read\<close>), and the
  first error ends the run. With no line at all \<^verbatim>\<open>Enter\<close> is never called and the parser
  keeps its zero value.
\<close>

fun readRows :: "psParser \<Rightarrow> string list \<Rightarrow> error + psParser" where
  "readRows p [] = Inr p"
| "readRows p (line # rest) =
     (case read p line of Inl e \<Rightarrow> Inl e | Inr p' \<Rightarrow> readRows p' rest)"

definition Parse :: "string list \<Rightarrow> error + Record list" where
  "Parse lines =
     (case lines of
        [] \<Rightarrow> Inr []
      | first # rest \<Rightarrow>
          (case Enter \<lparr>header = [], stats = []\<rparr> first of
             Inl e \<Rightarrow> Inl e
           | Inr p \<Rightarrow> (case readRows p rest of Inl e \<Rightarrow> Inl e | Inr p' \<Rightarrow> Inr (stats p'))))"

section \<open>The error mapper\<close>

text \<open>
  \<^verbatim>\<open>strings.IndexRune\<close> for an ASCII rune and \<^verbatim>\<open>strings.IndexByte\<close>: the index of the first
  occurrence of the byte, or -1.
\<close>

fun IndexByte_from :: "nat \<Rightarrow> string \<Rightarrow> char \<Rightarrow> int" where
  "IndexByte_from i [] c = - 1"
| "IndexByte_from i (x # xs) c = (if x = c then int i else IndexByte_from (Suc i) xs c)"

definition IndexByte :: "string \<Rightarrow> char \<Rightarrow> int" where
  "IndexByte s c = IndexByte_from 0 s c"

text \<open>
  \<^verbatim>\<open>matchErrPrefix\<close> (src/rstat.go, line 314) is \<^verbatim>\<open>FindStringIndex\<close> of the regular expression
  \<^verbatim>\<open>^[[:alpha:]]+:\s+\<close>; here it returns the end of the match, which starts at 0. The
  letters of \<^verbatim>\<open>[[:alpha:]]\<close> are A to Z and a to z; both repetitions are greedy, and the colon
  has to follow the last letter.
\<close>

definition isAlpha :: "char \<Rightarrow> bool" where
  "isAlpha c \<longleftrightarrow>
     (65 \<le> (of_char c :: nat) \<and> (of_char c :: nat) \<le> 90) \<or>
     (97 \<le> (of_char c :: nat) \<and> (of_char c :: nat) \<le> 122)"

definition matchErrPrefix :: "string \<Rightarrow> nat option" where
  "matchErrPrefix msg =
     (let word = takeWhile isAlpha msg;
          rest = dropWhile isAlpha msg
      in if word \<noteq> [] \<and> rest \<noteq> [] \<and> hd rest = CHR '':'' \<and> takeWhile reSpace (tl rest) \<noteq> []
         then Some (length word + 1 + length (takeWhile reSpace (tl rest)))
         else None)"

definition cutErrPrefix :: "string \<Rightarrow> string" where
  "cutErrPrefix msg = (case matchErrPrefix msg of Some e \<Rightarrow> drop e msg | None \<Rightarrow> msg)"

text \<open>
  \<^verbatim>\<open>mapCmdError\<close> (src/rstat.go, lines 296 to 312). The error is a \<^verbatim>\<open>*strit.ExitError\<close> with
  the text the command wrote to its standard error, or any other error with its message;
  the result is the message of the new error.
\<close>

datatype cmdError = ExitError string | OtherError string

fun mapCmdError :: "cmdError \<Rightarrow> string" where
  "mapCmdError (ExitError stderr) =
     (let i = IndexByte stderr (CHR 0x0A);
          msg = (if i > 0 then TrimSpace (take (nat i) stderr) else stderr)
      in cutErrPrefix msg)"
| "mapCmdError (OtherError text) = cutErrPrefix text"

section \<open>Ranging over a Go map\<close>

text \<open>
  \<^verbatim>\<open>for k, v := range m\<close> yields every entry of the map once, in an order the language
  leaves open. The functions that range over a map take the enumeration as a parameter
  \<^verbatim>\<open>rng\<close>; \<^verbatim>\<open>rangeOrder m es\<close> says that \<^verbatim>\<open>es\<close> is one of the orders Go may choose for \<^verbatim>\<open>m\<close>.
\<close>

definition rangeOrder :: "('k \<rightharpoonup> 'v) \<Rightarrow> ('k \<times> 'v) list \<Rightarrow> bool" where
  "rangeOrder m es \<longleftrightarrow> distinct (map fst es) \<and> map_of es = m"

section \<open>The command composer\<close>

text \<open>
  The repository holds two revisions of its source file: src/rstat.go and
  src/unnamed/part_001. They agree on \<^verbatim>\<open>getPid\<close>, the parser, the error mapper and the
  traversal, and differ in \<^verbatim>\<open>makePsCommand\<close>, \<^verbatim>\<open>ProcNode\<close> and \<^verbatim>\<open>buildProcTree\<close>. Definitions
  taken from the second file carry the suffix 2.

  \<^verbatim>\<open>makePsCommand\<close> (src/rstat.go, lines 140 to 176). \<^verbatim>\<open>columnLoop\<close> is its first loop, over
  the requested columns, with the map \<^verbatim>\<open>m\<close> and the flag \<^verbatim>\<open>cmd\<close> as state; \<^verbatim>\<open>columnStep\<close> is
  the \<^verbatim>\<open>switch\<close> of its body.
\<close>

definition columnStep :: "string \<Rightarrow> (string \<rightharpoonup> int) \<times> bool \<Rightarrow> (string \<rightharpoonup> int) \<times> bool" where
  "columnStep c st =
     (case st of
        (m, cmd) \<Rightarrow>
          if c = ''args'' \<or> c = ''cmd'' \<or> c = ''command'' then (m, True)
          else if c = ''pid'' \<or> c = ''ppid'' then (m, cmd)
          else (m(c \<mapsto> 0), cmd))"

primrec columnLoop :: "string list \<Rightarrow> (string \<rightharpoonup> int) \<times> bool \<Rightarrow> (string \<rightharpoonup> int) \<times> bool" where
  "columnLoop [] st = st"
| "columnLoop (c # cs) st = columnLoop cs (columnStep c st)"

definition makePsCommand ::
  "((string \<rightharpoonup> int) \<Rightarrow> (string \<times> int) list) \<Rightarrow> string list \<Rightarrow> string list" where
  "makePsCommand rng columns =
     (if length columns = 0 then [''ps'', ''-ewwF'']
      else
        case columnLoop columns (Map.empty, False) of
          (m, cmd) \<Rightarrow>
            let buff = ''pid,ppid'' @ concat (map (\<lambda>(c, _). CHR '','' # c) (rng m));
                buff = (if cmd then buff @ '',cmd'' else buff)
            in [''ps'', ''-ewwo'', buff])"

text \<open>
  \<^verbatim>\<open>makePsCommand\<close> of the second revision (src/unnamed/part_001, lines 141 to 199): a
  width specification after a colon is cut off, a substitution after an equals sign is
  kept, and every column is an \<^verbatim>\<open>-o\<close> argument of its own.
\<close>

definition cutColumn :: "string \<Rightarrow> string \<times> string" where
  "cutColumn c =
     (let c = (if IndexByte c (CHR '':'') \<ge> 0 then take (nat (IndexByte c (CHR '':''))) c else c)
      in if IndexByte c (CHR ''='') \<ge> 0
         then (take (nat (IndexByte c (CHR ''=''))) c, drop (nat (IndexByte c (CHR ''='')) + 1) c)
         else (c, []))"

definition columnStep2 :: "string \<Rightarrow> (string \<rightharpoonup> unit) \<times> string \<Rightarrow> (string \<rightharpoonup> unit) \<times> string" where
  "columnStep2 col st =
     (case (cutColumn col, st) of
        ((c, subst), (m, cmd)) \<Rightarrow>
          if c = ''args'' \<or> c = ''cmd'' \<or> c = ''command''
          then (m, if length subst > 0 then ''cmd='' @ subst else ''cmd'')
          else if c = ''pid'' \<or> c = ''ppid'' then (m, cmd)
          else if length subst > 0 then (m(c @ ''='' @ subst \<mapsto> ()), cmd)
          else (m(c \<mapsto> ()), cmd))"

primrec columnLoop2 :: "string list \<Rightarrow> (string \<rightharpoonup> unit) \<times> string \<Rightarrow> (string \<rightharpoonup> unit) \<times> string" where
  "columnLoop2 [] st = st"
| "columnLoop2 (col # cs) st = columnLoop2 cs (columnStep2 col st)"

definition makePsCommand2 ::
  "((string \<rightharpoonup> unit) \<Rightarrow> (string \<times> unit) list) \<Rightarrow> string list \<Rightarrow> string list" where
  "makePsCommand2 rng columns =
     (if length columns = 0 then [''ps'', ''-ewwF'']
      else
        case columnLoop2 columns (Map.empty, []) of
          (m, cmd) \<Rightarrow>
            let res = [''ps'', ''-ewwo'', ''pid,ppid''] @ concat (map (\<lambda>(c, _). [''-o'', c]) (rng m))
            in if length cmd > 0 then res @ [''-o'', cmd] else res)"

section \<open>Process nodes and the traversal\<close>

text \<open>
  \<^verbatim>\<open>ProcNode\<close> (src/rstat.go, lines 67 to 71). The nodes live in a store, the list of all
  nodes allocated so far; a \<^verbatim>\<open>*ProcNode\<close> is the index of its node in the store, so that
  the children of a node are addresses and a structure with a loop can be written down.
  The second revision adds the field \<^verbatim>\<open>ParentPid\<close>.
\<close>

record ProcNode =
  Pid :: int
  Stats :: Record
  Children :: "nat list"

record ProcNode2 = ProcNode +
  ParentPid :: int

text \<open>
  \<^verbatim>\<open>iterNodes\<close> (src/rstat.go, lines 98 to 113). The predicate may have effects of its
  own (the visitor of \<^verbatim>\<open>ForEach\<close> runs inside it), so it threads a state \<^verbatim>\<open>'s\<close>.
  \<^verbatim>\<open>iterNodes_range\<close> is the loop over \<^verbatim>\<open>nodes\<close>, the top of the stack (its last element);
  the function returns the node found, the new stack and the state.
\<close>

fun iterNodes_range ::
  "('a ProcNode_scheme) list \<Rightarrow> (int \<Rightarrow> Record \<Rightarrow> 's \<Rightarrow> bool \<times> 's) \<Rightarrow> nat list list \<Rightarrow>
   nat list \<Rightarrow> 's \<Rightarrow> nat option \<times> nat list list \<times> 's" where
  "iterNodes_range h pred stack [] s = (None, take (length stack - 1) stack, s)"
| "iterNodes_range h pred stack (node # rest) s =
     (case pred (Pid (h ! node)) (Stats (h ! node)) s of
        (True, s') \<Rightarrow> (Some node, [], s')
      | (False, s') \<Rightarrow>
          if length (Children (h ! node)) > 0
          then (None, stack[length stack - 1 := rest] @ [Children (h ! node)], s')
          else iterNodes_range h pred stack rest s')"

definition iterNodes ::
  "('a ProcNode_scheme) list \<Rightarrow> nat list list \<Rightarrow> (int \<Rightarrow> Record \<Rightarrow> 's \<Rightarrow> bool \<times> 's) \<Rightarrow>
   's \<Rightarrow> nat option \<times> nat list list \<times> 's" where
  "iterNodes h stack pred s = iterNodes_range h pred stack (stack ! (length stack - 1)) s"

text \<open>
  \<^verbatim>\<open>Find\<close> (src/rstat.go, lines 83 to 96). \<^verbatim>\<open>Find_loop\<close> is its loop
  \<^verbatim>\<open>for len(stack) > 0\<close>, which runs forever on a structure with a loop; not returning is
  the value \<^verbatim>\<open>None\<close>.
\<close>

partial_function (option) Find_loop ::
  "('a ProcNode_scheme) list \<Rightarrow> (int \<Rightarrow> Record \<Rightarrow> 's \<Rightarrow> bool \<times> 's) \<Rightarrow> nat option \<Rightarrow>
   nat list list \<Rightarrow> 's \<Rightarrow> (nat option \<times> 's) option" where
  "Find_loop h pred node stack s =
     (if length stack > 0
      then (case iterNodes h stack pred s of (node', stack', s') \<Rightarrow> Find_loop h pred node' stack' s')
      else Some (node, s))"

definition Find ::
  "('a ProcNode_scheme) list \<Rightarrow> nat \<Rightarrow> (int \<Rightarrow> Record \<Rightarrow> 's \<Rightarrow> bool \<times> 's) \<Rightarrow> 's \<Rightarrow>
   (nat option \<times> 's) option" where
  "Find h root pred s =
     (case pred (Pid (h ! root)) (Stats (h ! root)) s of
        (True, s') \<Rightarrow> Some (Some root, s')
      | (False, s') \<Rightarrow>
          (case iterNodes h [Children (h ! root)] pred s' of
             (node, stack, s'') \<Rightarrow> Find_loop h pred node stack s''))"

text \<open>\<^verbatim>\<open>ForEach\<close> (src/rstat.go, lines 74 to 79); the result is the visitor's final state.\<close>

definition ForEach ::
  "('a ProcNode_scheme) list \<Rightarrow> nat \<Rightarrow> (int \<Rightarrow> Record \<Rightarrow> 's \<Rightarrow> 's) \<Rightarrow> 's \<Rightarrow> 's option" where
  "ForEach h root fn s =
     map_option snd (Find h root (\<lambda>pid stats s. (False, fn pid stats s)) s)"

section \<open>The tree builder\<close>

text \<open>
  \<^verbatim>\<open>buildProcTree\<close> (src/rstat.go, lines 227 to 263). \<^verbatim>\<open>collectNodes\<close> is its first loop:
  it allocates one node per record, at the next free address, and enters it in the index
  \<^verbatim>\<open>nodes\<close> under its pid. \<^verbatim>\<open>linkNodes\<close> is its second loop, over the entries of the index:
  it reads the parent pid from the node's own record and appends the node to the children
  of its parent, when the index has one. The result is the address of the root and the
  store.
\<close>

fun collectNodes ::
  "Record list \<Rightarrow> ProcNode list \<Rightarrow> (int \<rightharpoonup> nat) \<Rightarrow> error + ProcNode list \<times> (int \<rightharpoonup> nat)" where
  "collectNodes [] h nodes = Inr (h, nodes)"
| "collectNodes (stat # rest) h nodes =
     (case getPid stat ''PID'' of
        Inl err \<Rightarrow> Inl err
      | Inr pid \<Rightarrow>
          collectNodes rest (h @ [\<lparr>Pid = pid, Stats = stat, Children = []\<rparr>])
            (nodes(pid \<mapsto> length h)))"

fun linkNodes ::
  "(int \<times> nat) list \<Rightarrow> (int \<rightharpoonup> nat) \<Rightarrow> ProcNode list \<Rightarrow> error + ProcNode list" where
  "linkNodes [] nodes h = Inr h"
| "linkNodes ((k, node) # rest) nodes h =
     (case getPid (Stats (h ! node)) ''PPID'' of
        Inl err \<Rightarrow> Inl err
      | Inr ppid \<Rightarrow>
          (case nodes ppid of
             Some parent \<Rightarrow>
               linkNodes rest nodes
                 (h[parent := (h ! parent)\<lparr>Children := Children (h ! parent) @ [node]\<rparr>])
           | None \<Rightarrow> linkNodes rest nodes h))"

definition buildProcTree ::
  "((int \<rightharpoonup> nat) \<Rightarrow> (int \<times> nat) list) \<Rightarrow> Record list \<Rightarrow> error + nat \<times> ProcNode list" where
  "buildProcTree rng records =
     (case collectNodes records [] Map.empty of
        Inl err \<Rightarrow> Inl err
      | Inr (h, nodes) \<Rightarrow>
          (case linkNodes (rng nodes) nodes h of
             Inl err \<Rightarrow> Inl err
           | Inr h' \<Rightarrow>
               (case nodes 1 of
                  Some root \<Rightarrow> Inr (root, h')
                | None \<Rightarrow> Inl RootNotFoundError)))"

text \<open>
  \<^verbatim>\<open>buildProcTree\<close> of the second revision (src/unnamed/part_001, lines 250 to 290): the
  first loop reads both identifiers, stores the parent pid in the node and deletes the
  keys \<^verbatim>\<open>PID\<close> and \<^verbatim>\<open>PPID\<close> from the record; the second loop cannot fail. The records are
  values here: the parser makes a fresh map for every row, so no two records of the list
  are the same map.
\<close>

fun collectNodes2 ::
  "Record list \<Rightarrow> ProcNode2 list \<Rightarrow> (int \<rightharpoonup> nat) \<Rightarrow> error + ProcNode2 list \<times> (int \<rightharpoonup> nat)" where
  "collectNodes2 [] h nodes = Inr (h, nodes)"
| "collectNodes2 (stat # rest) h nodes =
     (case getPid stat ''PID'' of
        Inl err \<Rightarrow> Inl err
      | Inr pid \<Rightarrow>
          (case getPid stat ''PPID'' of
             Inl err \<Rightarrow> Inl err
           | Inr ppid \<Rightarrow>
               collectNodes2 rest
                 (h @ [\<lparr>Pid = pid, Stats = stat(''PID'' := None, ''PPID'' := None),
                        Children = [], ParentPid = ppid\<rparr>])
                 (nodes(pid \<mapsto> length h))))"

fun linkNodes2 :: "(int \<times> nat) list \<Rightarrow> (int \<rightharpoonup> nat) \<Rightarrow> ProcNode2 list \<Rightarrow> ProcNode2 list" where
  "linkNodes2 [] nodes h = h"
| "linkNodes2 ((k, node) # rest) nodes h =
     (case nodes (ParentPid (h ! node)) of
        Some parent \<Rightarrow>
          linkNodes2 rest nodes
            (h[parent := (h ! parent)\<lparr>Children := Children (h ! parent) @ [node]\<rparr>])
      | None \<Rightarrow> linkNodes2 rest nodes h)"

definition buildProcTree2 ::
  "((int \<rightharpoonup> nat) \<Rightarrow> (int \<times> nat) list) \<Rightarrow> Record list \<Rightarrow> error + nat \<times> ProcNode2 list" where
  "buildProcTree2 rng records =
     (case collectNodes2 records [] Map.empty of
        Inl err \<Rightarrow> Inl err
      | Inr (h, nodes) \<Rightarrow>
          (case nodes 1 of
             Some root \<Rightarrow> Inr (root, linkNodes2 (rng nodes) nodes h)
           | None \<Rightarrow> Inl RootNotFoundError))"

section \<open>Notions of the specification\<close>

text \<open>The first line of a text: everything before its first line feed.\<close>

definition firstLine :: "string \<Rightarrow> string" where
  "firstLine msg = takeWhile (\<lambda>c. c \<noteq> CHR 0x0A) msg"

text \<open>
  The aliases of the command column and the identifier columns of \<^verbatim>\<open>makePsCommand\<close>. For
  the second revision: the name of a requested column is what stands before its first
  colon or equals sign, its substitution is what stands between the first equals sign and
  the first colon, and \<^verbatim>\<open>columnEntry\<close> and \<^verbatim>\<open>cmdEntry\<close> are the arguments passed for it.
\<close>

definition cmdAliases :: "string set" where
  "cmdAliases = {''args'', ''cmd'', ''command''}"

definition idColumns :: "string set" where
  "idColumns = {''pid'', ''ppid''}"

definition columnName :: "string \<Rightarrow> string" where
  "columnName col = takeWhile (\<lambda>x. x \<noteq> CHR ''='') (takeWhile (\<lambda>x. x \<noteq> CHR '':'') col)"

definition columnSubst :: "string \<Rightarrow> string" where
  "columnSubst col = drop 1 (dropWhile (\<lambda>x. x \<noteq> CHR ''='') (takeWhile (\<lambda>x. x \<noteq> CHR '':'') col))"

definition columnEntry :: "string \<Rightarrow> string" where
  "columnEntry col =
     (if columnSubst col = [] then columnName col else columnName col @ ''='' @ columnSubst col)"

definition cmdEntry :: "string \<Rightarrow> string" where
  "cmdEntry col = (if columnSubst col = [] then ''cmd'' else ''cmd='' @ columnSubst col)"


text \<open>
  A finite tree of addresses, its root and its pre-order. \<^verbatim>\<open>unfolds h t\<close> says that the
  structure in the store \<^verbatim>\<open>h\<close> below the root of \<^verbatim>\<open>t\<close> unfolds to \<^verbatim>\<open>t\<close>: every node of \<^verbatim>\<open>t\<close> is
  allocated and its children in the store are the roots of its subtrees, in order. A
  structure with a loop unfolds to no finite tree. \<^verbatim>\<open>firstMatch\<close> is a search through a list
  of addresses: the predicate is called on one node after the other and the search stops
  at the first node for which it holds. \<^verbatim>\<open>reachable\<close> are the addresses reached from a root
  along children lists.
\<close>

datatype ptree = PNode nat "ptree list"

fun rootOf :: "ptree \<Rightarrow> nat" where
  "rootOf (PNode a ts) = a"

fun preorder :: "ptree \<Rightarrow> nat list" where
  "preorder (PNode a ts) = a # concat (map preorder ts)"

fun unfolds :: "('a ProcNode_scheme) list \<Rightarrow> ptree \<Rightarrow> bool" where
  "unfolds h (PNode a ts) \<longleftrightarrow>
     a < length h \<and> Children (h ! a) = map rootOf ts \<and> (\<forall>t \<in> set ts. unfolds h t)"

fun firstMatch ::
  "('a ProcNode_scheme) list \<Rightarrow> (int \<Rightarrow> Record \<Rightarrow> 's \<Rightarrow> bool \<times> 's) \<Rightarrow> nat list \<Rightarrow> 's \<Rightarrow>
   nat option \<times> 's" where
  "firstMatch h pred [] s = (None, s)"
| "firstMatch h pred (a # rest) s =
     (case pred (Pid (h ! a)) (Stats (h ! a)) s of
        (True, s') \<Rightarrow> (Some a, s')
      | (False, s') \<Rightarrow> firstMatch h pred rest s')"

definition reachable :: "('a ProcNode_scheme) list \<Rightarrow> nat \<Rightarrow> nat set" where
  "reachable h root = {b. (root, b) \<in> {(a, c). a < length h \<and> c \<in> set (Children (h ! a))}\<^sup>*}"


text \<open>
  Notions for the tree builder. \<^verbatim>\<open>pidOf\<close> and \<^verbatim>\<open>ppidOf\<close> are the identifiers \<^verbatim>\<open>getPid\<close>
  extracts from a record; a record list is \<^verbatim>\<open>extractable\<close> when both extract from every
  record. \<^verbatim>\<open>lastWithPid rs i\<close>: no record after position \<^verbatim>\<open>i\<close> has the pid of record \<^verbatim>\<open>i\<close>.
  \<^verbatim>\<open>pidIndex rs p\<close> is the position of the last record with pid \<^verbatim>\<open>p\<close>. \<^verbatim>\<open>parentOf rs i\<close> is
  the position of the record that holds the parent of record \<^verbatim>\<open>i\<close>, for a record that is
  the last with its pid; \<^verbatim>\<open>ancestor rs k i\<close> follows \<^verbatim>\<open>k\<close> parent links from \<^verbatim>\<open>i\<close>. Record \<^verbatim>\<open>i\<close>
  traces to the root when some number of parent links leads from it to the record of
  pid 1, and \<^verbatim>\<open>rootLoop\<close> says that one or more parent links lead from the record of pid 1
  back to itself. \<^verbatim>\<open>childrenOf rs es b\<close> lists, in the order of the entries \<^verbatim>\<open>es\<close> of the
  index, the records whose parent is record \<^verbatim>\<open>b\<close>.
\<close>

definition pidOf :: "Record \<Rightarrow> int" where
  "pidOf r = (case getPid r ''PID'' of Inr p \<Rightarrow> p | Inl _ \<Rightarrow> - 1)"

definition ppidOf :: "Record \<Rightarrow> int" where
  "ppidOf r = (case getPid r ''PPID'' of Inr p \<Rightarrow> p | Inl _ \<Rightarrow> - 1)"

definition extractable :: "Record list \<Rightarrow> bool" where
  "extractable rs \<longleftrightarrow>
     list_all (\<lambda>r. \<not> isl (getPid r ''PID'') \<and> \<not> isl (getPid r ''PPID'')) rs"

definition lastWithPid :: "Record list \<Rightarrow> nat \<Rightarrow> bool" where
  "lastWithPid rs i \<longleftrightarrow> i < length rs \<and> list_all (\<lambda>r. pidOf r \<noteq> pidOf (rs ! i)) (drop (Suc i) rs)"

definition pidIndex :: "Record list \<Rightarrow> int \<rightharpoonup> nat" where
  "pidIndex rs p =
     (case filter (\<lambda>i. pidOf (rs ! i) = p) (rev [0..<length rs]) of
        [] \<Rightarrow> None
      | i # _ \<Rightarrow> Some i)"

definition parentOf :: "Record list \<Rightarrow> nat \<Rightarrow> nat option" where
  "parentOf rs i = (if lastWithPid rs i then pidIndex rs (ppidOf (rs ! i)) else None)"

fun ancestor :: "Record list \<Rightarrow> nat \<Rightarrow> nat \<Rightarrow> nat option" where
  "ancestor rs 0 i = Some i"
| "ancestor rs (Suc k) i = (case parentOf rs i of None \<Rightarrow> None | Some j \<Rightarrow> ancestor rs k j)"

definition tracesToRoot :: "Record list \<Rightarrow> nat \<Rightarrow> bool" where
  "tracesToRoot rs i \<longleftrightarrow> (\<exists>k root. pidIndex rs 1 = Some root \<and> ancestor rs k i = Some root)"

definition rootLoop :: "Record list \<Rightarrow> bool" where
  "rootLoop rs \<longleftrightarrow> (\<exists>k root. pidIndex rs 1 = Some root \<and> ancestor rs (Suc k) root = Some root)"

definition childrenOf :: "Record list \<Rightarrow> (int \<times> nat) list \<Rightarrow> nat \<Rightarrow> nat list" where
  "childrenOf rs es b = map snd (filter (\<lambda>(k, a). pidIndex rs (ppidOf (rs ! a)) = Some b) es)"


(*DEFS-END*)

section \<open>Properties of \<^verbatim>\<open>strconv.Atoi\<close> and \<^verbatim>\<open>getPid\<close>\<close>

lemma foldl_digits_mono: "n \<le> foldl (\<lambda>n c. n * 10 + digitVal c) n ds"
proof (induction ds arbitrary: n)
  case Nil
  show ?case by simp
next
  case (Cons c cs)
  have "n \<le> n * 10 + digitVal c" by simp
  also have "\<dots> \<le> foldl (\<lambda>n c. n * 10 + digitVal c) (n * 10 + digitVal c) cs"
    by (rule Cons.IH)
  finally show ?case by simp
qed

lemma ParseUint_loop_digits:
  "list_all isDigit ds \<Longrightarrow> n \<le> 2 ^ intSize - 1 \<Longrightarrow>
   ParseUint_loop n ds =
     (if foldl (\<lambda>n c. n * 10 + digitVal c) n ds > 2 ^ intSize - 1 then Inl ErrRange
      else Inr (foldl (\<lambda>n c. n * 10 + digitVal c) n ds))"
proof (induction ds arbitrary: n)
  case Nil
  then show ?case by simp
next
  case (Cons c cs)
  let ?m = "n * 10 + digitVal c"
  from Cons.prems have c: "isDigit c" and cs: "list_all isDigit cs" by simp_all
  show ?case
  proof (cases "?m > 2 ^ intSize - 1")
    case True
    have "?m \<le> foldl (\<lambda>n c. n * 10 + digitVal c) ?m cs"
      by (rule foldl_digits_mono)
    with True have "2 ^ intSize - 1 < foldl (\<lambda>n c. n * 10 + digitVal c) ?m cs"
      by (rule less_le_trans)
    with True show ?thesis using c by simp
  next
    case False
    then have "?m \<le> 2 ^ intSize - 1" by simp
    from Cons.IH [OF cs this] False c show ?thesis by simp
  qed
qed

lemma ParseUint_loop_nondigit:
  "\<not> list_all isDigit ds \<Longrightarrow> \<exists>e. ParseUint_loop n ds = Inl e"
  by (induction ds arbitrary: n) auto

text \<open>
  \<^verbatim>\<open>Atoi\<close> succeeds exactly on the integer literals whose value fits the machine integer,
  and then returns that value.
\<close>

lemma Atoi_Inr_iff:
  "Atoi s = Inr v \<longleftrightarrow> isIntLiteral s \<and> inIntRange (literalValue s) \<and> v = literalValue s"
proof (cases "s = []")
  case True
  then show ?thesis by (simp add: Atoi_def isIntLiteral_def literalDigits_def)
next
  case False
  define ds where "ds = literalDigits s"
  have ds: "(if hd s = CHR ''+'' \<or> hd s = CHR ''-'' then tl s else s) = ds"
    using False by (simp add: ds_def literalDigits_def)
  have pw: "(2::nat) ^ (intSize - 1) < 2 ^ intSize - 1" "(2::nat) ^ (intSize - 1) \<le> 2 ^ intSize - 1"
    by (simp_all add: intSize_def)
  have ipw: "(2::int) ^ (intSize - 1) = int (2 ^ (intSize - 1))" by simp
  have pos: "- int n < int (2 ^ (intSize - 1))" for n
  proof -
    have "- int n \<le> 0" by simp
    also have "(0::int) < int (2 ^ (intSize - 1))" by simp
    finally show ?thesis .
  qed
  show ?thesis
  proof (cases "ds \<noteq> [] \<and> list_all isDigit ds")
    case lit: True
    then have L: "isIntLiteral s" by (simp add: isIntLiteral_def ds_def)
    have P: "ParseUint ds =
      (if digitsValue ds > 2 ^ intSize - 1 then Inl ErrRange else Inr (digitsValue ds))"
      using lit by (simp add: ParseUint_def ParseUint_loop_digits digitsValue_def)
    show ?thesis
    proof (cases "digitsValue ds > 2 ^ intSize - 1")
      case True
      then have "Atoi s = Inl ErrRange"
        using False pw P by (simp add: Atoi_def ds Let_def)
      moreover have "\<not> inIntRange (literalValue s)"
        using True False pw unfolding inIntRange_def literalValue_def ds_def [symmetric] ipw
        by (auto simp del: of_nat_power)
      ultimately show ?thesis by simp
    next
      case F2: False
      have "Atoi s =
        (if hd s \<noteq> CHR ''-'' \<and> digitsValue ds \<ge> 2 ^ (intSize - 1) then Inl ErrRange
         else if hd s = CHR ''-'' \<and> digitsValue ds > 2 ^ (intSize - 1) then Inl ErrRange
         else Inr (if hd s = CHR ''-'' then - int (digitsValue ds) else int (digitsValue ds)))"
        using False P F2 by (simp add: Atoi_def ds Let_def)
      then show ?thesis
        using False L pos unfolding inIntRange_def literalValue_def ds_def [symmetric] ipw
        by (auto simp del: of_nat_power)
    qed
  next
    case nolit: False
    then have L: "\<not> isIntLiteral s" by (simp add: isIntLiteral_def ds_def)
    have "ParseUint ds = Inl ErrSyntax \<or> ParseUint ds = Inl ErrRange"
    proof (cases "ds = []")
      case True
      then show ?thesis by (simp add: ParseUint_def)
    next
      case F3: False
      with nolit have "\<not> list_all isDigit ds" by simp
      from ParseUint_loop_nondigit [OF this, of 0] obtain e where "ParseUint_loop 0 ds = Inl e" ..
      then show ?thesis using F3 by (cases e) (simp_all add: ParseUint_def)
    qed
    then have "\<exists>e. Atoi s = Inl e"
      using False pw by (auto simp: Atoi_def ds Let_def)
    then show ?thesis using L by auto
  qed
qed

lemma Atoi_Inl_iff:
  "(\<exists>e. Atoi s = Inl e) \<longleftrightarrow> \<not> (isIntLiteral s \<and> inIntRange (literalValue s))"
proof -
  have "(\<exists>e. Atoi s = Inl e) \<longleftrightarrow> \<not> (\<exists>v. Atoi s = Inr v)"
    by (cases "Atoi s") simp_all
  then show ?thesis by (simp add: Atoi_Inr_iff)
qed

lemmas getPid_eval =
  getPid_def lookup_def Atoi_def ParseUint_def isDigit_def digitVal_def intSize_def

lemmas literal_eval =
  isIntLiteral_def literalValue_def literalDigits_def digitsValue_def inIntRange_def
  isDigit_def digitVal_def intSize_def

text \<open>
  Claim C3, as the code has it. For every record and key, \<^verbatim>\<open>getPid\<close>
  \<^item> fails with \<^verbatim>\<open>MissingFieldError\<close> when the field is absent or its value is empty;
  \<^item> fails with \<^verbatim>\<open>NumberFormatError\<close> when the value is not empty and is not an integer
    literal (an optional sign \<^verbatim>\<open>+\<close> or \<^verbatim>\<open>-\<close>, then decimal digits) whose value fits the
    machine integer;
  \<^item> fails with \<^verbatim>\<open>NegativeValueError\<close> when the value is such a literal and negative;
  \<^item> returns the value of the literal otherwise.
\<close>

theorem getPid_contract:
  "(stat key = None \<or> stat key = Some [] \<longrightarrow> getPid stat key = Inl (MissingFieldError key)) \<and>
   (stat key = Some str \<and> str \<noteq> [] \<and> \<not> (isIntLiteral str \<and> inIntRange (literalValue str)) \<longrightarrow>
      (\<exists>e. getPid stat key = Inl (NumberFormatError key str e))) \<and>
   (stat key = Some str \<and> isIntLiteral str \<and> inIntRange (literalValue str) \<and> literalValue str < 0 \<longrightarrow>
      getPid stat key = Inl (NegativeValueError key str)) \<and>
   (stat key = Some str \<and> isIntLiteral str \<and> inIntRange (literalValue str) \<and> 0 \<le> literalValue str \<longrightarrow>
      getPid stat key = Inr (literalValue str))"
proof (intro conjI impI)
  assume "stat key = None \<or> stat key = Some []"
  then show "getPid stat key = Inl (MissingFieldError key)"
    by (auto simp: getPid_def lookup_def)
next
  assume a: "stat key = Some str \<and> str \<noteq> [] \<and> \<not> (isIntLiteral str \<and> inIntRange (literalValue str))"
  then obtain e where "Atoi str = Inl e" using Atoi_Inl_iff [of str] by blast
  with a show "\<exists>e. getPid stat key = Inl (NumberFormatError key str e)"
    by (simp add: getPid_def lookup_def)
next
  assume a: "stat key = Some str \<and> isIntLiteral str \<and> inIntRange (literalValue str) \<and> literalValue str < 0"
  then have "Atoi str = Inr (literalValue str)" by (simp add: Atoi_Inr_iff)
  moreover from a have "str \<noteq> []" by (auto simp: isIntLiteral_def literalDigits_def)
  ultimately show "getPid stat key = Inl (NegativeValueError key str)"
    using a by (simp add: getPid_def lookup_def)
next
  assume a: "stat key = Some str \<and> isIntLiteral str \<and> inIntRange (literalValue str) \<and> 0 \<le> literalValue str"
  then have "Atoi str = Inr (literalValue str)" by (simp add: Atoi_Inr_iff)
  moreover from a have "str \<noteq> []" by (auto simp: isIntLiteral_def literalDigits_def)
  ultimately show "getPid stat key = Inr (literalValue str)"
    using a by (simp add: getPid_def lookup_def)
qed

theorem getPid_contract_witness:
  "getPid Map.empty ''PID'' = Inl (MissingFieldError ''PID'') \<and>
   \<not> isIntLiteral ''1x'' \<and>
   (\<exists>e. getPid [''PID'' \<mapsto> ''1x''] ''PID'' = Inl (NumberFormatError ''PID'' ''1x'' e)) \<and>
   isIntLiteral ''-5'' \<and> inIntRange (literalValue ''-5'') \<and> literalValue ''-5'' < 0 \<and>
   getPid [''PID'' \<mapsto> ''-5''] ''PID'' = Inl (NegativeValueError ''PID'' ''-5'') \<and>
   isIntLiteral ''42'' \<and> inIntRange (literalValue ''42'') \<and> literalValue ''42'' = 42 \<and>
   getPid [''PID'' \<mapsto> ''42''] ''PID'' = Inr 42"
proof -
  have l1: "\<not> isIntLiteral ''1x''"
    and l2: "isIntLiteral ''-5'' \<and> inIntRange (literalValue ''-5'') \<and> literalValue ''-5'' < 0"
    and l3: "isIntLiteral ''42'' \<and> inIntRange (literalValue ''42'') \<and> literalValue ''42'' = 42"
    and l4: "inIntRange 42"
    by (simp_all add: literal_eval)
  from getPid_contract [of Map.empty "''PID''" "[]"]
  have "getPid Map.empty ''PID'' = Inl (MissingFieldError ''PID'')" by simp
  moreover from getPid_contract [of "[''PID'' \<mapsto> ''1x'']" "''PID''" "''1x''"] l1
  have "\<exists>e. getPid [''PID'' \<mapsto> ''1x''] ''PID'' = Inl (NumberFormatError ''PID'' ''1x'' e)" by simp
  moreover from getPid_contract [of "[''PID'' \<mapsto> ''-5'']" "''PID''" "''-5''"] l2
  have "getPid [''PID'' \<mapsto> ''-5''] ''PID'' = Inl (NegativeValueError ''PID'' ''-5'')" by simp
  moreover from getPid_contract [of "[''PID'' \<mapsto> ''42'']" "''PID''" "''42''"] l3 l4
  have "getPid [''PID'' \<mapsto> ''42''] ''PID'' = Inr 42" by simp
  ultimately show ?thesis using l1 l2 l3 l4 by simp
qed

text \<open>
  Claim C3 as stated fails for a literal beyond the machine integer: 9223372036854775808
  (2 to the power 63) is a base-10 literal of a non-negative integer, and \<^verbatim>\<open>getPid\<close> does
  not return that integer but fails with \<^verbatim>\<open>NumberFormatError\<close> (value out of range).
\<close>

theorem getPid_out_of_range_counterexample:
  "isIntLiteral ''9223372036854775808'' \<and>
   literalValue ''9223372036854775808'' = 9223372036854775808 \<and>
   getPid [''PID'' \<mapsto> ''9223372036854775808''] ''PID'' =
     Inl (NumberFormatError ''PID'' ''9223372036854775808'' ErrRange)"
  by (simp add: literal_eval getPid_eval)

text \<open>
  Claim C10. When the value at the key is a plus sign followed by one or more decimal
  digits whose number fits the machine integer, \<^verbatim>\<open>getPid\<close> succeeds and returns that
  number.
\<close>

theorem getPid_plus_sign:
  assumes "stat key = Some (CHR ''+'' # ds)"
    and "ds \<noteq> []"
    and "list_all isDigit ds"
    and "int (digitsValue ds) < 2 ^ (intSize - 1)"
  shows "getPid stat key = Inr (int (digitsValue ds))"
proof -
  let ?s = "CHR ''+'' # ds"
  have "isIntLiteral ?s" using assms(2,3) by (simp add: isIntLiteral_def literalDigits_def)
  moreover have v: "literalValue ?s = int (digitsValue ds)"
    by (simp add: literalValue_def literalDigits_def)
  moreover have "inIntRange (literalValue ?s)"
  proof -
    have "- (2 ^ (intSize - 1)) \<le> (0::int)" by simp
    also have "(0::int) \<le> int (digitsValue ds)" by simp
    finally show ?thesis using assms(4) v by (simp add: inIntRange_def)
  qed
  ultimately have "Atoi ?s = Inr (int (digitsValue ds))" by (simp add: Atoi_Inr_iff)
  then show ?thesis using assms(1) by (simp add: getPid_def lookup_def)
qed

theorem getPid_plus_sign_witness:
  "[''PPID'' \<mapsto> ''+12''] ''PPID'' = Some (CHR ''+'' # ''12'') \<and> ''12'' \<noteq> [] \<and>
   list_all isDigit ''12'' \<and> int (digitsValue ''12'') < 2 ^ (intSize - 1) \<and>
   getPid [''PPID'' \<mapsto> ''+12''] ''PPID'' = Inr 12"
proof -
  have h: "[''PPID'' \<mapsto> ''+12''] ''PPID'' = Some (CHR ''+'' # ''12'')" "''12'' \<noteq> []"
    "list_all isDigit ''12''" "int (digitsValue ''12'') < 2 ^ (intSize - 1)"
    by (simp_all add: literal_eval)
  have v: "digitsValue ''12'' = 12" by (simp add: literal_eval)
  from getPid_plus_sign [of "[''PPID'' \<mapsto> ''+12'']" "''PPID''" "''12''"] h v
  show ?thesis by simp
qed

section \<open>Properties of the table parser\<close>

lemma wsRe_Split_length: "length (wsRe_Split s n) \<le> n"
  by (induction s n rule: wsRe_Split.induct) (auto simp: Let_def)

lemma zipRecord_other: "k \<notin> set hs \<Longrightarrow> zipRecord hs fs m k = m k"
  by (induction hs fs m rule: zipRecord.induct) auto

lemma zipRecord_dom: "length hs = length fs \<Longrightarrow> dom (zipRecord hs fs m) = dom m \<union> set hs"
  by (induction hs fs m rule: zipRecord.induct) auto

lemma zipRecord_last:
  "length hs = length fs \<Longrightarrow> j < length hs \<Longrightarrow>
   \<forall>j'. j < j' \<and> j' < length hs \<longrightarrow> hs ! j' \<noteq> hs ! j \<Longrightarrow>
   zipRecord hs fs m (hs ! j) = Some (fs ! j)"
proof (induction hs fs m arbitrary: j rule: zipRecord.induct)
  case (1 h hs f fs m)
  show ?case
  proof (cases j)
    case 0
    have "h \<notin> set hs"
    proof
      assume "h \<in> set hs"
      then obtain k where k: "k < length hs" "hs ! k = h" by (auto simp: in_set_conv_nth)
      with "1.prems"(3) [rule_format, of "Suc k"] 0 show False by simp
    qed
    then show ?thesis using 0 by (simp add: zipRecord_other)
  next
    case (Suc j0)
    have "\<forall>j'. j0 < j' \<and> j' < length hs \<longrightarrow> hs ! j' \<noteq> hs ! j0"
    proof (intro allI impI)
      fix j' assume "j0 < j' \<and> j' < length hs"
      with "1.prems"(3) [rule_format, of "Suc j'"] Suc show "hs ! j' \<noteq> hs ! j0" by simp
    qed
    moreover have "length hs = length fs" "j0 < length hs" using "1.prems"(1,2) Suc by simp_all
    ultimately have "zipRecord hs fs (m(h \<mapsto> f)) (hs ! j0) = Some (fs ! j0)"
      by (intro "1.IH")
    then show ?thesis using Suc by simp
  qed
qed simp_all

lemma readRows_ok:
  "\<forall>r \<in> set rows. length (wsRe_Split r (length (header p))) = length (header p) \<Longrightarrow>
   readRows p rows =
     Inr (p\<lparr>stats := stats p @
       map (\<lambda>r. zipRecord (header p) (wsRe_Split r (length (header p))) Map.empty) rows\<rparr>)"
proof (induction rows arbitrary: p)
  case Nil
  show ?case by simp
next
  case (Cons r rows)
  let ?p = "p\<lparr>stats := stats p @ [zipRecord (header p) (wsRe_Split r (length (header p))) Map.empty]\<rparr>"
  from Cons.prems have "read p r = Inr ?p" by (simp add: read_def)
  moreover have "header ?p = header p" by simp
  ultimately show ?case using Cons.IH [of ?p] Cons.prems by simp
qed

lemma readRows_fail:
  "i < length rows \<Longrightarrow>
   \<forall>j<i. length (wsRe_Split (rows ! j) (length (header p))) = length (header p) \<Longrightarrow>
   length (wsRe_Split (rows ! i) (length (header p))) \<noteq> length (header p) \<Longrightarrow>
   readRows p rows =
     Inl (RowShapeError (length (wsRe_Split (rows ! i) (length (header p)))) (length (header p))
            (wsRe_Split (rows ! i) (length (header p))))"
proof (induction rows arbitrary: p i)
  case Nil
  then show ?case by simp
next
  case (Cons r rows)
  show ?case
  proof (cases i)
    case 0
    with Cons.prems show ?thesis by (simp add: read_def Let_def)
  next
    case (Suc i0)
    let ?p = "p\<lparr>stats := stats p @ [zipRecord (header p) (wsRe_Split r (length (header p))) Map.empty]\<rparr>"
    from Cons.prems(2) [rule_format, of 0] Suc have "read p r = Inr ?p" by (simp add: read_def)
    moreover have "\<forall>j<i0. length (wsRe_Split (rows ! j) (length (header ?p))) = length (header ?p)"
    proof (intro allI impI)
      fix j assume "j < i0"
      with Cons.prems(2) [rule_format, of "Suc j"] Suc
      show "length (wsRe_Split (rows ! j) (length (header ?p))) = length (header ?p)" by simp
    qed
    moreover have "i0 < length rows" using Cons.prems(1) Suc by simp
    moreover have "length (wsRe_Split (rows ! i0) (length (header ?p))) \<noteq> length (header ?p)"
      using Cons.prems(3) Suc by simp
    ultimately show ?thesis using Cons.IH [of i0 ?p] Suc by simp
  qed
qed

lemma Enter_header:
  "Enter p first =
     (if length (Fields first) < 2 then Inl (HeaderError (Fields first))
      else Inr (p\<lparr>stats := [], header := Fields first\<rparr>))"
  by (simp add: Enter_def Let_def)

text \<open>
  Claim C2, as the code has it. For a first line with header fields \<^verbatim>\<open>hs\<close> and \<^verbatim>\<open>n\<close> of
  them:
  \<^item> with fewer than 2 header fields the parser fails with \<^verbatim>\<open>HeaderError\<close>;
  \<^item> otherwise every data line is split on runs of white space into at most \<^verbatim>\<open>n\<close> pieces,
    and the parser fails with \<^verbatim>\<open>RowShapeError\<close> on the first data line whose split does
    not have exactly \<^verbatim>\<open>n\<close> pieces;
  \<^item> when no line fails it returns one record per data line (the number of lines minus
    one), whose keys are the header names and which maps a header name to the field at
    the last position where that name stands in the header: name \<^verbatim>\<open>j\<close> to field \<^verbatim>\<open>j\<close> when no
    later header field repeats the name.
\<close>

theorem Parse_contract:
  assumes hs: "hs = Fields first" and n: "n = length hs"
  shows
   "(n < 2 \<longrightarrow> Parse (first # rows) = Inl (HeaderError hs)) \<and>
    (2 \<le> n \<and> i < length rows \<and> (\<forall>j<i. length (wsRe_Split (rows ! j) n) = n) \<and>
       length (wsRe_Split (rows ! i) n) \<noteq> n \<longrightarrow>
       Parse (first # rows) =
         Inl (RowShapeError (length (wsRe_Split (rows ! i) n)) n (wsRe_Split (rows ! i) n))) \<and>
    (2 \<le> n \<and> (\<forall>r \<in> set rows. length (wsRe_Split r n) = n) \<longrightarrow>
       (\<exists>recs. Parse (first # rows) = Inr recs \<and> length recs = length rows \<and>
          (\<forall>i<length rows. dom (recs ! i) = set hs \<and>
             (\<forall>j<n. (\<forall>j'. j < j' \<and> j' < n \<longrightarrow> hs ! j' \<noteq> hs ! j) \<longrightarrow>
                (recs ! i) (hs ! j) = Some (wsRe_Split (rows ! i) n ! j))))) \<and>
    (\<forall>line. length (wsRe_Split line n) \<le> n)"
proof (intro conjI impI allI)
  assume "n < 2"
  then show "Parse (first # rows) = Inl (HeaderError hs)"
    by (simp add: Parse_def Enter_header hs n)
next
  let ?p = "\<lparr>header = hs, stats = []\<rparr>"
  assume a: "2 \<le> n \<and> i < length rows \<and> (\<forall>j<i. length (wsRe_Split (rows ! j) n) = n) \<and>
       length (wsRe_Split (rows ! i) n) \<noteq> n"
  then have E: "Enter \<lparr>header = [], stats = []\<rparr> first = Inr ?p"
    by (simp add: Enter_header hs n)
  from a have "readRows ?p rows =
     Inl (RowShapeError (length (wsRe_Split (rows ! i) n)) n (wsRe_Split (rows ! i) n))"
    using readRows_fail [of i rows ?p] by (simp add: n)
  with E show "Parse (first # rows) =
         Inl (RowShapeError (length (wsRe_Split (rows ! i) n)) n (wsRe_Split (rows ! i) n))"
    by (simp add: Parse_def)
next
  let ?p = "\<lparr>header = hs, stats = []\<rparr>"
  let ?recs = "map (\<lambda>r. zipRecord hs (wsRe_Split r n) Map.empty) rows"
  assume a: "2 \<le> n \<and> (\<forall>r \<in> set rows. length (wsRe_Split r n) = n)"
  then have E: "Enter \<lparr>header = [], stats = []\<rparr> first = Inr ?p"
    by (simp add: Enter_header hs n)
  from a have "readRows ?p rows = Inr (?p\<lparr>stats := ?recs\<rparr>)"
    using readRows_ok [of rows ?p] by (simp add: n)
  with E have P: "Parse (first # rows) = Inr ?recs" by (simp add: Parse_def)
  have "\<forall>i<length rows. dom (?recs ! i) = set hs \<and>
             (\<forall>j<n. (\<forall>j'. j < j' \<and> j' < n \<longrightarrow> hs ! j' \<noteq> hs ! j) \<longrightarrow>
                (?recs ! i) (hs ! j) = Some (wsRe_Split (rows ! i) n ! j))"
  proof (intro allI impI conjI)
    fix i assume i: "i < length rows"
    with a have len: "length hs = length (wsRe_Split (rows ! i) n)" by (simp add: n)
    from i len show "dom (?recs ! i) = set hs" by (simp add: zipRecord_dom)
    fix j assume j: "j < n" and last: "\<forall>j'. j < j' \<and> j' < n \<longrightarrow> hs ! j' \<noteq> hs ! j"
    from zipRecord_last [OF len, of j Map.empty] j last i
    show "(?recs ! i) (hs ! j) = Some (wsRe_Split (rows ! i) n ! j)" by (simp add: n)
  qed
  with P show "\<exists>recs. Parse (first # rows) = Inr recs \<and> length recs = length rows \<and>
          (\<forall>i<length rows. dom (recs ! i) = set hs \<and>
             (\<forall>j<n. (\<forall>j'. j < j' \<and> j' < n \<longrightarrow> hs ! j' \<noteq> hs ! j) \<longrightarrow>
                (recs ! i) (hs ! j) = Some (wsRe_Split (rows ! i) n ! j)))"
    by (intro exI [of _ ?recs]) simp
next
  fix line show "length (wsRe_Split line n) \<le> n" by (rule wsRe_Split_length)
qed

lemmas parse_eval = asciiSpace_def reSpace_def Fields_def Parse_def Enter_def read_def

theorem Parse_contract_witness:
  "Fields ''PID PPID CMD'' = [''PID'', ''PPID'', ''CMD''] \<and>
   wsRe_Split ''1 0 /sbin/init splash'' 3 = [''1'', ''0'', ''/sbin/init splash''] \<and>
   wsRe_Split ''1 0'' 3 = [''1'', ''0''] \<and>
   Parse [''PID''] = Inl (HeaderError [''PID'']) \<and>
   Parse [''PID PPID CMD'', ''1 0''] = Inl (RowShapeError 2 3 [''1'', ''0'']) \<and>
   (\<exists>recs. Parse [''PID PPID CMD'', ''1 0 /sbin/init splash''] = Inr recs \<and> length recs = 1 \<and>
      dom (recs ! 0) = {''PID'', ''PPID'', ''CMD''} \<and>
      (recs ! 0) ''CMD'' = Some ''/sbin/init splash'')"
proof -
  have f: "Fields ''PID PPID CMD'' = [''PID'', ''PPID'', ''CMD'']"
    and f1: "Fields ''PID'' = [''PID'']"
    and s1: "wsRe_Split ''1 0 /sbin/init splash'' 3 = [''1'', ''0'', ''/sbin/init splash'']"
    and s2: "wsRe_Split ''1 0'' 3 = [''1'', ''0'']"
    by (simp_all add: parse_eval eval_nat_numeral)
  from Parse_contract [of "[''PID'']" "''PID''" 1 "[]" 0] f1
  have a: "Parse [''PID''] = Inl (HeaderError [''PID''])" by simp
  from Parse_contract [of "[''PID'', ''PPID'', ''CMD'']" "''PID PPID CMD''" 3 "[''1 0'']" 0] f s2
  have b: "Parse [''PID PPID CMD'', ''1 0''] = Inl (RowShapeError 2 3 [''1'', ''0''])" by simp
  from Parse_contract [of "[''PID'', ''PPID'', ''CMD'']" "''PID PPID CMD''" 3
      "[''1 0 /sbin/init splash'']" 0] f s1
  obtain recs where r: "Parse [''PID PPID CMD'', ''1 0 /sbin/init splash''] = Inr recs"
    "length recs = 1"
    "\<forall>i<length [''1 0 /sbin/init splash'']. dom (recs ! i) = set [''PID'', ''PPID'', ''CMD''] \<and>
       (\<forall>j<3. (\<forall>j'. j < j' \<and> j' < 3 \<longrightarrow>
            [''PID'', ''PPID'', ''CMD''] ! j' \<noteq> [''PID'', ''PPID'', ''CMD''] ! j) \<longrightarrow>
          (recs ! i) ([''PID'', ''PPID'', ''CMD''] ! j) =
            Some (wsRe_Split ([''1 0 /sbin/init splash''] ! i) 3 ! j))"
    by auto
  from r(3) [rule_format, of 0] have d: "dom (recs ! 0) = {''PID'', ''PPID'', ''CMD''}"
    and "\<forall>j<3. (\<forall>j'. j < j' \<and> j' < 3 \<longrightarrow>
            [''PID'', ''PPID'', ''CMD''] ! j' \<noteq> [''PID'', ''PPID'', ''CMD''] ! j) \<longrightarrow>
          (recs ! 0) ([''PID'', ''PPID'', ''CMD''] ! j) =
            Some (wsRe_Split ''1 0 /sbin/init splash'' 3 ! j)"
    by auto
  from this(2) [rule_format, of 2] s1 have c: "(recs ! 0) ''CMD'' = Some ''/sbin/init splash''"
    by simp
  from f s1 s2 a b r(1,2) d c show ?thesis by blast
qed

text \<open>
  Claim C2 as stated fails when a header name is repeated: with the header \<^verbatim>\<open>A A\<close> and the
  data line \<^verbatim>\<open>1 2\<close> the record maps header name 0 to the field 1, not to the field 0.
\<close>

theorem Parse_duplicate_header_counterexample:
  "Parse [''A A'', ''1 2''] = Inr [[''A'' \<mapsto> ''2'']] \<and>
   Fields ''A A'' = [''A'', ''A''] \<and> wsRe_Split ''1 2'' 2 = [''1'', ''2'']"
  by (simp add: parse_eval eval_nat_numeral)


section \<open>Properties of the error mapper\<close>

lemma IndexByte_from_found:
  "c \<in> set s \<Longrightarrow> IndexByte_from i s c = int (i + length (takeWhile (\<lambda>x. x \<noteq> c) s))"
  by (induction s arbitrary: i) auto

lemma IndexByte_from_missing: "c \<notin> set s \<Longrightarrow> IndexByte_from i s c = - 1"
  by (induction s arbitrary: i) auto

lemma mapCmdError_multiline:
  assumes "CHR 0x0A \<in> set stderr" and "hd stderr \<noteq> CHR 0x0A"
  shows "mapCmdError (ExitError stderr) = cutErrPrefix (TrimSpace (firstLine stderr))"
proof -
  let ?n = "length (takeWhile (\<lambda>x. x \<noteq> CHR 0x0A) stderr)"
  have i: "IndexByte stderr (CHR 0x0A) = int ?n"
    using assms(1) by (simp add: IndexByte_def IndexByte_from_found)
  from assms have "stderr \<noteq> []" by auto
  with assms(2) have "0 < ?n" by (cases stderr) simp_all
  moreover have "take ?n stderr = firstLine stderr"
    unfolding firstLine_def by (rule takeWhile_eq_take [symmetric])
  ultimately show ?thesis using i by (simp add: Let_def)
qed

lemma mapCmdError_single:
  assumes "CHR 0x0A \<notin> set stderr \<or> (stderr \<noteq> [] \<and> hd stderr = CHR 0x0A)"
  shows "mapCmdError (ExitError stderr) = cutErrPrefix stderr"
proof -
  have "\<not> 0 < IndexByte stderr (CHR 0x0A)"
  proof (cases "CHR 0x0A \<in> set stderr")
    case False
    then show ?thesis by (simp add: IndexByte_def IndexByte_from_missing)
  next
    case True
    with assms obtain rest where "stderr = CHR 0x0A # rest" by (cases stderr) auto
    then show ?thesis by (simp add: IndexByte_def)
  qed
  then show ?thesis by (simp add: Let_def)
qed

lemma cutErrPrefix_prefix:
  assumes "word \<noteq> []" and "list_all isAlpha word" and "ws \<noteq> []" and "list_all reSpace ws"
    and "rest = [] \<or> \<not> reSpace (hd rest)"
  shows "cutErrPrefix (word @ CHR '':'' # ws @ rest) = rest"
proof -
  let ?msg = "word @ CHR '':'' # ws @ rest"
  have colon: "\<not> isAlpha (CHR '':'')" by (simp add: isAlpha_def)
  have w: "\<And>x. x \<in> set word \<Longrightarrow> isAlpha x" using assms(2) by (simp add: list_all_iff)
  have s: "\<And>x. x \<in> set ws \<Longrightarrow> reSpace x" using assms(4) by (simp add: list_all_iff)
  have tw: "takeWhile isAlpha ?msg = word"
    using w colon by (simp add: takeWhile_append2)
  have dw: "dropWhile isAlpha ?msg = CHR '':'' # ws @ rest"
    using w colon by (simp add: dropWhile_append2)
  have r: "takeWhile reSpace rest = []" using assms(5) by (cases rest) auto
  have ts: "takeWhile reSpace (ws @ rest) = ws"
    using s r by (simp add: takeWhile_append2)
  have "matchErrPrefix ?msg = Some (length word + 1 + length ws)"
    unfolding matchErrPrefix_def tw dw using assms(1,3) ts by (simp add: Let_def)
  then show ?thesis by (simp add: cutErrPrefix_def)
qed

lemma cutErrPrefix_no_prefix:
  assumes "\<not> (\<exists>word ws rest. msg = word @ CHR '':'' # ws @ rest \<and> word \<noteq> [] \<and>
      list_all isAlpha word \<and> ws \<noteq> [] \<and> list_all reSpace ws)"
  shows "cutErrPrefix msg = msg"
proof (cases "matchErrPrefix msg")
  case None
  then show ?thesis by (simp add: cutErrPrefix_def)
next
  case (Some e)
  let ?word = "takeWhile isAlpha msg" and ?r = "dropWhile isAlpha msg"
  let ?ws = "takeWhile reSpace (tl ?r)"
  from Some have c: "?word \<noteq> []" "?r \<noteq> []" "hd ?r = CHR '':''" "?ws \<noteq> []"
    by (auto simp: matchErrPrefix_def Let_def split: if_splits)
  from c(2,3) have "?r = CHR '':'' # tl ?r" by (cases ?r) auto
  moreover have "tl ?r = ?ws @ dropWhile reSpace (tl ?r)" by simp
  ultimately have "?r = CHR '':'' # ?ws @ dropWhile reSpace (tl ?r)" by simp
  moreover have "msg = ?word @ ?r" by simp
  ultimately have "msg = ?word @ CHR '':'' # ?ws @ dropWhile reSpace (tl ?r)" by simp
  moreover have "list_all isAlpha ?word" "list_all reSpace ?ws"
    by (auto simp: list_all_iff dest: set_takeWhileD)
  ultimately have False using assms c(1,4) by blast
  then show ?thesis ..
qed

text \<open>
  Claim C9, as the code has it. When the diagnostic text of the failed command holds a
  line feed that is not its first byte, the message is its first line, trimmed of white
  space, without one leading prefix; when the text holds no line feed or starts with one,
  the message is the whole text, untrimmed, without one leading prefix. The prefix is a
  run of letters, a colon and a run of white space, and only a text that starts so is
  changed.
\<close>

theorem mapCmdError_normalises:
  "(CHR 0x0A \<in> set stderr \<and> hd stderr \<noteq> CHR 0x0A \<longrightarrow>
      mapCmdError (ExitError stderr) = cutErrPrefix (TrimSpace (firstLine stderr))) \<and>
   (CHR 0x0A \<notin> set stderr \<or> (stderr \<noteq> [] \<and> hd stderr = CHR 0x0A) \<longrightarrow>
      mapCmdError (ExitError stderr) = cutErrPrefix stderr) \<and>
   (word \<noteq> [] \<and> list_all isAlpha word \<and> ws \<noteq> [] \<and> list_all reSpace ws \<and>
      (rest = [] \<or> \<not> reSpace (hd rest)) \<longrightarrow>
      cutErrPrefix (word @ CHR '':'' # ws @ rest) = rest) \<and>
   (\<not> (\<exists>word ws rest. msg = word @ CHR '':'' # ws @ rest \<and> word \<noteq> [] \<and>
         list_all isAlpha word \<and> ws \<noteq> [] \<and> list_all reSpace ws) \<longrightarrow>
      cutErrPrefix msg = msg)"
  using mapCmdError_multiline [of stderr] mapCmdError_single [of stderr]
    cutErrPrefix_prefix [of word ws rest] cutErrPrefix_no_prefix [of msg]
  by blast

lemmas norm_eval = asciiSpace_def reSpace_def TrimSpace_def spaceWidthLast_def isAlpha_def
  matchErrPrefix_def cutErrPrefix_def IndexByte_def firstLine_def


theorem mapCmdError_normalises_witness:
  "mapCmdError (ExitError (''ps: bad option '' @ CHR 0x0A # ''usage: ps'')) =
     cutErrPrefix (TrimSpace (firstLine (''ps: bad option '' @ CHR 0x0A # ''usage: ps''))) \<and>
   TrimSpace (firstLine (''ps: bad option '' @ CHR 0x0A # ''usage: ps'')) = ''ps: bad option'' \<and>
   mapCmdError (ExitError ''ps: bad option'') = cutErrPrefix ''ps: bad option'' \<and>
   cutErrPrefix (''ps'' @ CHR '':'' # '' '' @ ''bad option'') = ''bad option'' \<and>
   cutErrPrefix ''exit status 1'' = ''exit status 1''"
proof -
  let ?t = "''ps: bad option '' @ CHR 0x0A # ''usage: ps''"
  have h1: "CHR 0x0A \<in> set ?t \<and> hd ?t \<noteq> CHR 0x0A" by simp
  have h2: "CHR 0x0A \<notin> set ''ps: bad option''" by simp
  have h3: "''ps'' \<noteq> [] \<and> list_all isAlpha ''ps'' \<and> '' '' \<noteq> [] \<and> list_all reSpace '' '' \<and>
      (''bad option'' = [] \<or> \<not> reSpace (hd ''bad option''))"
    by (simp add: isAlpha_def reSpace_def)
  have h4: "\<not> (\<exists>word ws rest. ''exit status 1'' = word @ CHR '':'' # ws @ rest \<and> word \<noteq> [] \<and>
         list_all isAlpha word \<and> ws \<noteq> [] \<and> list_all reSpace ws)"
  proof
    assume "\<exists>word ws rest. ''exit status 1'' = word @ CHR '':'' # ws @ rest \<and> word \<noteq> [] \<and>
         list_all isAlpha word \<and> ws \<noteq> [] \<and> list_all reSpace ws"
    then obtain word ws rest where "''exit status 1'' = word @ CHR '':'' # ws @ rest" by blast
    then have "set ''exit status 1'' = set (word @ CHR '':'' # ws @ rest)" by simp
    then have "CHR '':'' \<in> set ''exit status 1''" by simp
    then show False by simp
  qed
  have t: "TrimSpace (firstLine ?t) = ''ps: bad option''" by (simp add: norm_eval)
  from mapCmdError_normalises [of ?t "''ps''" "'' ''" "''bad option''" "''exit status 1''"] h1 h3 h4
  have a: "mapCmdError (ExitError ?t) = cutErrPrefix (TrimSpace (firstLine ?t))"
    and b: "cutErrPrefix (''ps'' @ CHR '':'' # '' '' @ ''bad option'') = ''bad option''"
    and c: "cutErrPrefix ''exit status 1'' = ''exit status 1''"
    by blast+
  from mapCmdError_normalises [of "''ps: bad option''" "''ps''" "'' ''" "''bad option''" "''exit status 1''"] h2
  have d: "mapCmdError (ExitError ''ps: bad option'') = cutErrPrefix ''ps: bad option''"
    by blast
  from a b c d t show ?thesis by blast
qed

text \<open>
  Claim C9 as stated fails on a text that starts with a line feed, of which every line is
  kept, and on a single line with white space around it, which is neither trimmed nor
  loses its prefix.
\<close>

theorem mapCmdError_first_line_counterexample:
  "mapCmdError (ExitError (CHR 0x0A # ''ps: bad option'')) = CHR 0x0A # ''ps: bad option'' \<and>
   cutErrPrefix (TrimSpace (firstLine (CHR 0x0A # ''ps: bad option''))) = [] \<and>
   mapCmdError (ExitError '' ps: bad option'') = '' ps: bad option'' \<and>
   cutErrPrefix (TrimSpace (firstLine '' ps: bad option'')) = ''bad option''"
  by (simp add: norm_eval)

section \<open>Properties of the command composer\<close>

lemma takeWhile_neq_all: "c \<notin> set s \<Longrightarrow> takeWhile (\<lambda>x. x \<noteq> c) s = s"
  by (induction s) auto

lemma dropWhile_neq_none: "c \<notin> set s \<Longrightarrow> dropWhile (\<lambda>x. x \<noteq> c) s = []"
  by (induction s) auto

lemma take_IndexByte:
  "(if IndexByte s c \<ge> 0 then take (nat (IndexByte s c)) s else s) = takeWhile (\<lambda>x. x \<noteq> c) s"
proof (cases "c \<in> set s")
  case True
  then show ?thesis
    by (simp add: IndexByte_def IndexByte_from_found takeWhile_eq_take [symmetric])
next
  case False
  then show ?thesis by (simp add: IndexByte_def IndexByte_from_missing takeWhile_neq_all)
qed

lemma drop_IndexByte:
  "c \<in> set s \<Longrightarrow> drop (nat (IndexByte s c) + 1) s = drop 1 (dropWhile (\<lambda>x. x \<noteq> c) s)"
  by (simp add: IndexByte_def IndexByte_from_found dropWhile_eq_drop)

lemma cutColumn_eq: "cutColumn col = (columnName col, columnSubst col)"
proof -
  let ?c = "takeWhile (\<lambda>x. x \<noteq> CHR '':'') col"
  have c: "(if IndexByte col (CHR '':'') \<ge> 0 then take (nat (IndexByte col (CHR '':''))) col else col) = ?c"
    by (rule take_IndexByte)
  show ?thesis
  proof (cases "CHR ''='' \<in> set ?c")
    case True
    then have "IndexByte ?c (CHR ''='') \<ge> 0" by (simp add: IndexByte_def IndexByte_from_found)
    moreover from this have "take (nat (IndexByte ?c (CHR ''=''))) ?c = columnName col"
      using take_IndexByte [of ?c "CHR ''=''"] by (simp add: columnName_def)
    moreover have "drop (nat (IndexByte ?c (CHR ''='')) + 1) ?c = columnSubst col"
      using drop_IndexByte [OF True] by (simp add: columnSubst_def)
    ultimately show ?thesis unfolding cutColumn_def c by (simp add: Let_def)
  next
    case False
    then have "\<not> IndexByte ?c (CHR ''='') \<ge> 0" by (simp add: IndexByte_def IndexByte_from_missing)
    moreover from False have "columnName col = ?c" by (simp add: columnName_def takeWhile_neq_all)
    moreover from False have "columnSubst col = []"
      by (simp add: columnSubst_def dropWhile_neq_none)
    ultimately show ?thesis unfolding cutColumn_def c by (simp add: Let_def)
  qed
qed

lemma columnLoop_result:
  "columnLoop cs (m, cmd) = (m', cmd') \<Longrightarrow>
   dom m' = dom m \<union> {c \<in> set cs. c \<notin> cmdAliases \<and> c \<notin> idColumns} \<and>
   (cmd' \<longleftrightarrow> cmd \<or> (\<exists>c \<in> set cs. c \<in> cmdAliases))"
proof (induction cs arbitrary: m cmd)
  case Nil
  then show ?case by simp
next
  case (Cons c cs)
  obtain m1 cmd1 where s: "columnStep c (m, cmd) = (m1, cmd1)" by (cases "columnStep c (m, cmd)")
  with Cons.prems have "columnLoop cs (m1, cmd1) = (m', cmd')" by simp
  from Cons.IH [OF this] have
    IH: "dom m' = dom m1 \<union> {c \<in> set cs. c \<notin> cmdAliases \<and> c \<notin> idColumns}"
      "cmd' \<longleftrightarrow> cmd1 \<or> (\<exists>c \<in> set cs. c \<in> cmdAliases)" by simp_all
  from s have "dom m1 = dom m \<union> {x. x = c \<and> c \<notin> cmdAliases \<and> c \<notin> idColumns}"
    and "cmd1 \<longleftrightarrow> cmd \<or> c \<in> cmdAliases"
    unfolding columnStep_def cmdAliases_def idColumns_def by (auto split: if_splits)
  with IH show ?case by auto
qed

lemma rangeOrder_keys: "rangeOrder m es \<Longrightarrow> distinct (map fst es) \<and> set (map fst es) = dom m"
  by (force simp: rangeOrder_def dom_map_of_conv_image_fst)

lemma columnLoop2_result:
  "columnLoop2 cs (m, cmd) = (m', cmd') \<Longrightarrow>
   dom m' = dom m \<union> columnEntry ` {c \<in> set cs. columnName c \<notin> cmdAliases \<and> columnName c \<notin> idColumns} \<and>
   cmd' = (case filter (\<lambda>c. columnName c \<in> cmdAliases) cs of [] \<Rightarrow> cmd | a # as \<Rightarrow> cmdEntry (last (a # as)))"
proof (induction cs arbitrary: m cmd)
  case Nil
  then show ?case by simp
next
  case (Cons c cs)
  obtain m1 cmd1 where s: "columnStep2 c (m, cmd) = (m1, cmd1)" by (cases "columnStep2 c (m, cmd)")
  with Cons.prems have "columnLoop2 cs (m1, cmd1) = (m', cmd')" by simp
  from Cons.IH [OF this] have
    IH: "dom m' = dom m1 \<union> columnEntry ` {c \<in> set cs. columnName c \<notin> cmdAliases \<and> columnName c \<notin> idColumns}"
      "cmd' = (case filter (\<lambda>c. columnName c \<in> cmdAliases) cs of [] \<Rightarrow> cmd1 | a # as \<Rightarrow> cmdEntry (last (a # as)))"
    by simp_all
  from s have m1: "dom m1 = dom m \<union> columnEntry ` {x. x = c \<and> columnName c \<notin> cmdAliases \<and> columnName c \<notin> idColumns}"
    and c1: "cmd1 = (if columnName c \<in> cmdAliases then cmdEntry c else cmd)"
    unfolding columnStep2_def cutColumn_eq cmdAliases_def idColumns_def columnEntry_def cmdEntry_def
    by (auto split: if_splits)
  have "dom m' = dom m \<union> columnEntry ` {x \<in> set (c # cs). columnName x \<notin> cmdAliases \<and> columnName x \<notin> idColumns}"
    unfolding IH(1) m1 by auto
  moreover have "cmd' = (case filter (\<lambda>c. columnName c \<in> cmdAliases) (c # cs) of [] \<Rightarrow> cmd | a # as \<Rightarrow> cmdEntry (last (a # as)))"
    unfolding IH(2) c1 by (auto split: list.splits)
  ultimately show ?case by simp
qed


lemma concat_map_fst: "concat (map (\<lambda>(c, _). f c) es) = concat (map f (map fst es))"
  by (induction es) auto

text \<open>
  Claim C6, as the code has it. An empty column list yields \<^verbatim>\<open>ps -ewwF\<close> in both revisions.
  For a non-empty list, src/rstat.go yields \<^verbatim>\<open>ps -ewwo\<close> and one argument: \<^verbatim>\<open>pid,ppid\<close>, then
  each requested column that is neither an alias of the command column nor \<^verbatim>\<open>pid\<close> or
  \<^verbatim>\<open>ppid\<close>, once, preceded by a comma, in the order the map yields them, then \<^verbatim>\<open>,cmd\<close>
  exactly when an alias was requested; the names are compared as they are given, no
  width suffix is cut off. The second revision cuts off the width suffix and yields
  \<^verbatim>\<open>ps -ewwo pid,ppid\<close> followed by one \<^verbatim>\<open>-o\<close> argument pair per such column and, when an alias
  was requested, a last pair for the command column.
\<close>

theorem makePsCommand_contract:
  assumes "rangeOrder (fst (columnLoop columns (Map.empty, False)))
             (rng (fst (columnLoop columns (Map.empty, False))))"
    and "rangeOrder (fst (columnLoop2 columns (Map.empty, [])))
             (rng2 (fst (columnLoop2 columns (Map.empty, []))))"
  shows
   "makePsCommand rng [] = [''ps'', ''-ewwF''] \<and> makePsCommand2 rng2 [] = [''ps'', ''-ewwF''] \<and>
    (columns \<noteq> [] \<longrightarrow>
       (\<exists>cols. makePsCommand rng columns =
            [''ps'', ''-ewwo'',
             ''pid,ppid'' @ concat (map (\<lambda>c. CHR '','' # c) cols) @
               (if \<exists>c \<in> set columns. c \<in> cmdAliases then '',cmd'' else [])] \<and>
          distinct cols \<and> set cols = {c \<in> set columns. c \<notin> cmdAliases \<and> c \<notin> idColumns}) \<and>
       (\<exists>cols. makePsCommand2 rng2 columns =
            [''ps'', ''-ewwo'', ''pid,ppid''] @ concat (map (\<lambda>c. [''-o'', c]) cols) @
              (case filter (\<lambda>c. columnName c \<in> cmdAliases) columns of
                 [] \<Rightarrow> [] | a # as \<Rightarrow> [''-o'', cmdEntry (last (a # as))]) \<and>
          distinct cols \<and>
          set cols = columnEntry ` {c \<in> set columns. columnName c \<notin> cmdAliases \<and> columnName c \<notin> idColumns}))"
proof (intro conjI impI)
  show "makePsCommand rng [] = [''ps'', ''-ewwF'']" by (simp add: makePsCommand_def)
  show "makePsCommand2 rng2 [] = [''ps'', ''-ewwF'']" by (simp add: makePsCommand2_def)
next
  assume ne: "columns \<noteq> []"
  obtain m cmd where l: "columnLoop columns (Map.empty, False) = (m, cmd)"
    by (cases "columnLoop columns (Map.empty, False)")
  from columnLoop_result [OF l]
  have d: "dom m = {c \<in> set columns. c \<notin> cmdAliases \<and> c \<notin> idColumns}"
    and c: "cmd \<longleftrightarrow> (\<exists>c \<in> set columns. c \<in> cmdAliases)" by simp_all
  let ?cols = "map fst (rng m)"
  from assms(1) l have "rangeOrder m (rng m)" by simp
  from rangeOrder_keys [OF this] d
  have k: "distinct ?cols" "set ?cols = {c \<in> set columns. c \<notin> cmdAliases \<and> c \<notin> idColumns}"
    by simp_all
  have "makePsCommand rng columns =
            [''ps'', ''-ewwo'',
             ''pid,ppid'' @ concat (map (\<lambda>c. CHR '','' # c) ?cols) @
               (if \<exists>c \<in> set columns. c \<in> cmdAliases then '',cmd'' else [])]"
    using ne l c by (simp add: makePsCommand_def Let_def concat_map_fst)
  with k show "\<exists>cols. makePsCommand rng columns =
            [''ps'', ''-ewwo'',
             ''pid,ppid'' @ concat (map (\<lambda>c. CHR '','' # c) cols) @
               (if \<exists>c \<in> set columns. c \<in> cmdAliases then '',cmd'' else [])] \<and>
          distinct cols \<and> set cols = {c \<in> set columns. c \<notin> cmdAliases \<and> c \<notin> idColumns}"
    by blast
next
  assume ne: "columns \<noteq> []"
  obtain m cmd where l: "columnLoop2 columns (Map.empty, []) = (m, cmd)"
    by (cases "columnLoop2 columns (Map.empty, [])")
  from columnLoop2_result [OF l]
  have d: "dom m = columnEntry ` {c \<in> set columns. columnName c \<notin> cmdAliases \<and> columnName c \<notin> idColumns}"
    and c: "cmd = (case filter (\<lambda>c. columnName c \<in> cmdAliases) columns of
                 [] \<Rightarrow> [] | a # as \<Rightarrow> cmdEntry (last (a # as)))" by simp_all
  have ce: "cmdEntry x \<noteq> []" for x by (simp add: cmdEntry_def)
  let ?cols = "map fst (rng2 m)"
  from assms(2) l have "rangeOrder m (rng2 m)" by simp
  from rangeOrder_keys [OF this] d
  have k: "distinct ?cols"
    "set ?cols = columnEntry ` {c \<in> set columns. columnName c \<notin> cmdAliases \<and> columnName c \<notin> idColumns}"
    by simp_all
  have "makePsCommand2 rng2 columns =
            [''ps'', ''-ewwo'', ''pid,ppid''] @ concat (map (\<lambda>c. [''-o'', c]) ?cols) @
              (case filter (\<lambda>c. columnName c \<in> cmdAliases) columns of
                 [] \<Rightarrow> [] | a # as \<Rightarrow> [''-o'', cmdEntry (last (a # as))])"
    using ne l c ce by (auto simp: makePsCommand2_def Let_def concat_map_fst split: list.splits)
  with k show "\<exists>cols. makePsCommand2 rng2 columns =
            [''ps'', ''-ewwo'', ''pid,ppid''] @ concat (map (\<lambda>c. [''-o'', c]) cols) @
              (case filter (\<lambda>c. columnName c \<in> cmdAliases) columns of
                 [] \<Rightarrow> [] | a # as \<Rightarrow> [''-o'', cmdEntry (last (a # as))]) \<and>
          distinct cols \<and>
          set cols = columnEntry ` {c \<in> set columns. columnName c \<notin> cmdAliases \<and> columnName c \<notin> idColumns}"
    by blast
qed

lemmas ps_eval = makePsCommand_def makePsCommand2_def columnStep_def columnStep2_def cutColumn_def
  IndexByte_def rangeOrder_def

text \<open>
  Claim C6 as stated fails in both revisions: src/rstat.go passes the column \<^verbatim>\<open>pid:5\<close> on
  with its width suffix instead of recognising \<^verbatim>\<open>pid\<close>, and the second revision does not
  pass the columns as one comma-separated argument.
\<close>

theorem makePsCommand_counterexample:
  "rangeOrder (fst (columnLoop [''pid:5''] (Map.empty, False))) [(''pid:5'', 0)] \<and>
   makePsCommand (\<lambda>m. [(''pid:5'', 0)]) [''pid:5''] = [''ps'', ''-ewwo'', ''pid,ppid,pid:5''] \<and>
   rangeOrder (fst (columnLoop2 [''%cpu''] (Map.empty, []))) [(''%cpu'', ())] \<and>
   makePsCommand2 (\<lambda>m. [(''%cpu'', ())]) [''%cpu''] = [''ps'', ''-ewwo'', ''pid,ppid'', ''-o'', ''%cpu'']"
  by (simp add: ps_eval)

theorem makePsCommand_contract_witness:
  "rangeOrder (fst (columnLoop [''%cpu'', ''cmd'', ''%cpu'', ''pid''] (Map.empty, False))) [(''%cpu'', 0)] \<and>
   rangeOrder (fst (columnLoop2 [''%cpu'', ''cmd'', ''%cpu'', ''pid''] (Map.empty, []))) [(''%cpu'', ())] \<and>
   makePsCommand (\<lambda>m. [(''%cpu'', 0)]) [] = [''ps'', ''-ewwF''] \<and>
   (\<exists>cols. makePsCommand (\<lambda>m. [(''%cpu'', 0)]) [''%cpu'', ''cmd'', ''%cpu'', ''pid''] =
            [''ps'', ''-ewwo'', ''pid,ppid'' @ concat (map (\<lambda>c. CHR '','' # c) cols) @ '',cmd''] \<and>
          distinct cols \<and> set cols = {''%cpu''})"
proof -
  let ?cs = "[''%cpu'', ''cmd'', ''%cpu'', ''pid'']"
  have h1: "rangeOrder (fst (columnLoop ?cs (Map.empty, False))) [(''%cpu'', 0)]"
    and h2: "rangeOrder (fst (columnLoop2 ?cs (Map.empty, []))) [(''%cpu'', ())]"
    by (simp_all add: ps_eval)
  have s: "{c \<in> set ?cs. c \<notin> cmdAliases \<and> c \<notin> idColumns} = {''%cpu''}"
    by (auto simp: cmdAliases_def idColumns_def)
  have a: "\<exists>c \<in> set ?cs. c \<in> cmdAliases" by (simp add: cmdAliases_def)
  from makePsCommand_contract [of ?cs "\<lambda>m. [(''%cpu'', 0)]" "\<lambda>m. [(''%cpu'', ())]"] h1 h2
  have "makePsCommand (\<lambda>m. [(''%cpu'', 0)]) [] = [''ps'', ''-ewwF'']"
    and "\<exists>cols. makePsCommand (\<lambda>m. [(''%cpu'', 0)]) ?cs =
            [''ps'', ''-ewwo'', ''pid,ppid'' @ concat (map (\<lambda>c. CHR '','' # c) cols) @
               (if \<exists>c \<in> set ?cs. c \<in> cmdAliases then '',cmd'' else [])] \<and>
          distinct cols \<and> set cols = {c \<in> set ?cs. c \<notin> cmdAliases \<and> c \<notin> idColumns}"
    by blast+
  then show ?thesis unfolding s using a h1 h2 by simp
qed

section \<open>Properties of the traversal\<close>

lemma firstMatch_append:
  "firstMatch h pred (xs @ ys) s =
     (case firstMatch h pred xs s of
        (Some a, s') \<Rightarrow> (Some a, s')
      | (None, s') \<Rightarrow> firstMatch h pred ys s')"
  by (induction xs arbitrary: s) (auto split: prod.splits bool.splits)

lemma Find_loop_empty: "Find_loop h pred node [] s = Some (node, s)"
  by (subst Find_loop.simps) simp

lemma Find_loop_step:
  "stack \<noteq> [] \<Longrightarrow>
   Find_loop h pred node stack s =
     (case iterNodes_range h pred stack (last stack) s of
        (node', stack', s') \<Rightarrow> Find_loop h pred node' stack' s')"
  by (subst Find_loop.simps) (simp add: iterNodes_def last_conv_nth)

text \<open>
  The loop from the middle of a level: with the level \<^verbatim>\<open>ts\<close> still to visit on top of the
  stack \<^verbatim>\<open>base\<close>, the traversal is the search through the pre-order of \<^verbatim>\<open>ts\<close>, and goes on
  with \<^verbatim>\<open>base\<close> when nothing matches.
\<close>

lemma iterNodes_forest:
  "\<forall>t \<in> set ts. unfolds h t \<Longrightarrow>
   (case iterNodes_range h pred (base @ [lvl]) (map rootOf ts) s of
      (node', stack', s') \<Rightarrow> Find_loop h pred node' stack' s') =
   (case firstMatch h pred (concat (map preorder ts)) s of
      (Some a, s') \<Rightarrow> Some (Some a, s')
    | (None, s') \<Rightarrow> Find_loop h pred None base s')"
proof (induction "size_list size ts" arbitrary: ts base lvl s rule: less_induct)
  case less
  show ?case
  proof (cases ts)
    case Nil
    then show ?thesis by simp
  next
    case (Cons t ts')
    obtain a sub where t: "t = PNode a sub" by (cases t)
    from less.prems Cons t have u: "Children (h ! a) = map rootOf sub"
      "\<forall>t \<in> set sub. unfolds h t" "\<forall>t \<in> set ts'. unfolds h t" by simp_all
    obtain b s1 where p: "pred (Pid (h ! a)) (Stats (h ! a)) s = (b, s1)"
      by (cases "pred (Pid (h ! a)) (Stats (h ! a)) s")
    show ?thesis
    proof (cases b)
      case True
      with p Cons t show ?thesis by (simp add: Find_loop_empty)
    next
      case False
      have IHts: "(case iterNodes_range h pred (base @ [lvl']) (map rootOf ts') s' of
          (node', stack', s') \<Rightarrow> Find_loop h pred node' stack' s') =
        (case firstMatch h pred (concat (map preorder ts')) s' of
          (Some a, s') \<Rightarrow> Some (Some a, s')
        | (None, s') \<Rightarrow> Find_loop h pred None base s')" for lvl' s'
        using less.hyps [of ts' base lvl' s'] u(3) Cons by simp
      show ?thesis
      proof (cases "sub = []")
        case True
        with p False Cons t u IHts [of lvl s1] show ?thesis by simp
      next
        case nonempty: False
        let ?stack = "base @ [map rootOf ts', map rootOf sub]"
        have "(case iterNodes_range h pred (base @ [lvl]) (map rootOf ts) s of
          (node', stack', s') \<Rightarrow> Find_loop h pred node' stack' s') =
          Find_loop h pred None ?stack s1"
          using p False Cons t u nonempty by simp
        also have "\<dots> = (case iterNodes_range h pred ?stack (map rootOf sub) s1 of
          (node', stack', s') \<Rightarrow> Find_loop h pred node' stack' s')"
          by (subst Find_loop_step) simp_all
        also have "\<dots> = (case firstMatch h pred (concat (map preorder sub)) s1 of
            (Some a, s') \<Rightarrow> Some (Some a, s')
          | (None, s') \<Rightarrow> Find_loop h pred None (base @ [map rootOf ts']) s')"
          using less.hyps [of sub "base @ [map rootOf ts']" "map rootOf sub" s1] u(2) Cons t
          by simp
        also have "\<dots> = (case firstMatch h pred (concat (map preorder sub)) s1 of
            (Some a, s') \<Rightarrow> Some (Some a, s')
          | (None, s') \<Rightarrow>
              (case firstMatch h pred (concat (map preorder ts')) s' of
                (Some a, s') \<Rightarrow> Some (Some a, s')
              | (None, s') \<Rightarrow> Find_loop h pred None base s'))"
        proof -
          have "Find_loop h pred None (base @ [map rootOf ts']) s' =
              (case firstMatch h pred (concat (map preorder ts')) s' of
                (Some a, s') \<Rightarrow> Some (Some a, s')
              | (None, s') \<Rightarrow> Find_loop h pred None base s')" for s'
            by (subst Find_loop_step) (simp_all add: IHts)
          then show ?thesis by (simp split: prod.splits option.splits)
        qed
        finally show ?thesis
          using p False Cons t
          by (simp add: firstMatch_append split: prod.splits option.splits)
      qed
    qed
  qed
qed


lemma Find_tree:
  assumes "unfolds h t"
  shows "Find h (rootOf t) pred s = Some (firstMatch h pred (preorder t) s)"
proof -
  obtain a sub where t: "t = PNode a sub" by (cases t)
  from assms t have u: "Children (h ! a) = map rootOf sub" "\<forall>t \<in> set sub. unfolds h t"
    by simp_all
  obtain b s1 where p: "pred (Pid (h ! a)) (Stats (h ! a)) s = (b, s1)"
    by (cases "pred (Pid (h ! a)) (Stats (h ! a)) s")
  show ?thesis
  proof (cases b)
    case True
    with p t show ?thesis by (simp add: Find_def)
  next
    case False
    have "Find h (rootOf t) pred s =
      (case iterNodes_range h pred ([] @ [map rootOf sub]) (map rootOf sub) s1 of
         (node', stack', s') \<Rightarrow> Find_loop h pred node' stack' s')"
      using p False t u by (simp add: Find_def iterNodes_def)
    also have "\<dots> = (case firstMatch h pred (concat (map preorder sub)) s1 of
        (Some a, s') \<Rightarrow> Some (Some a, s')
      | (None, s') \<Rightarrow> Find_loop h pred None [] s')"
      by (rule iterNodes_forest [OF u(2)])
    also have "\<dots> = Some (firstMatch h pred (concat (map preorder sub)) s1)"
      by (simp add: Find_loop_empty split: prod.splits option.splits)
    finally show ?thesis using p False t by simp
  qed
qed

lemma firstMatch_never:
  "firstMatch h (\<lambda>pid stats s. (False, fn pid stats s)) as s =
     (None, fold (\<lambda>a. fn (Pid (h ! a)) (Stats (h ! a))) as s)"
  by (induction as arbitrary: s) simp_all

lemma firstMatch_none:
  "\<forall>a \<in> set as. \<forall>s. \<not> fst (pred (Pid (h ! a)) (Stats (h ! a)) s) \<Longrightarrow>
   fst (firstMatch h pred as s) = None"
proof (induction as arbitrary: s)
  case Nil
  show ?case by simp
next
  case (Cons a as)
  obtain b s1 where p: "pred (Pid (h ! a)) (Stats (h ! a)) s = (b, s1)"
    by (cases "pred (Pid (h ! a)) (Stats (h ! a)) s")
  from Cons.prems have "\<not> fst (pred (Pid (h ! a)) (Stats (h ! a)) s)" by simp
  with p have "\<not> b" by simp
  with p Cons show ?case by simp
qed

lemma rootOf_in_preorder: "rootOf t \<in> set (preorder t)"
  by (cases t) simp

lemma preorder_closed:
  "unfolds h t \<Longrightarrow> b \<in> set (preorder t) \<Longrightarrow> c \<in> set (Children (h ! b)) \<Longrightarrow>
   c \<in> set (preorder t)"
proof (induction t)
  case (PNode a sub)
  from PNode.prems(1) have u: "Children (h ! a) = map rootOf sub" "\<forall>t \<in> set sub. unfolds h t"
    by simp_all
  show ?case
  proof (cases "b = a")
    case True
    with PNode.prems(3) u(1) obtain t' where "t' \<in> set sub" "c = rootOf t'" by auto
    then have "c \<in> set (preorder t')" by (simp add: rootOf_in_preorder)
    with \<open>t' \<in> set sub\<close> show ?thesis by auto
  next
    case False
    with PNode.prems(2) obtain t' where t': "t' \<in> set sub" "b \<in> set (preorder t')" by auto
    with PNode.IH [OF t'(1)] u(2) PNode.prems(3) have "c \<in> set (preorder t')" by blast
    with t'(1) show ?thesis by auto
  qed
qed

lemma preorder_reachable:
  "unfolds h t \<Longrightarrow> set (preorder t) = reachable h (rootOf t)"
proof (induction t)
  case (PNode a sub)
  let ?E = "{(a, c). a < length h \<and> c \<in> set (Children (h ! a))}"
  from PNode.prems have u: "a < length h" "Children (h ! a) = map rootOf sub"
    "\<forall>t \<in> set sub. unfolds h t" by simp_all
  have "set (preorder (PNode a sub)) \<subseteq> reachable h a"
  proof
    fix b assume "b \<in> set (preorder (PNode a sub))"
    then consider "b = a" | t' where "t' \<in> set sub" "b \<in> set (preorder t')" by auto
    then show "b \<in> reachable h a"
    proof cases
      case 1
      then show ?thesis by (simp add: reachable_def)
    next
      case 2
      with PNode.IH [OF 2(1)] u(3) have "(rootOf t', b) \<in> ?E\<^sup>*" by (auto simp: reachable_def)
      moreover from 2(1) u(1,2) have "(a, rootOf t') \<in> ?E" by auto
      ultimately have "(a, b) \<in> ?E\<^sup>*" by (rule converse_rtrancl_into_rtrancl [rotated])
      then show ?thesis by (simp add: reachable_def)
    qed
  qed
  moreover have "reachable h a \<subseteq> set (preorder (PNode a sub))"
  proof
    fix b assume "b \<in> reachable h a"
    then have "(a, b) \<in> ?E\<^sup>*" by (simp add: reachable_def)
    then show "b \<in> set (preorder (PNode a sub))"
    proof (induction rule: rtrancl_induct)
      case base
      show ?case by simp
    next
      case (step y z)
      from step.hyps(2) have "z \<in> set (Children (h ! y))" by simp
      from preorder_closed [OF PNode.prems step.IH this] show ?case .
    qed
  qed
  ultimately show ?case by auto
qed

lemma count_list_distinct: "distinct xs \<Longrightarrow> x \<in> set xs \<Longrightarrow> count_list xs x = 1"
  by (induction xs) (auto simp: count_list_0_iff)

text \<open>
  Claim C7. On a structure that unfolds to a finite tree without shared nodes, \<^verbatim>\<open>Find\<close>
  returns, and it is the search through the pre-order of the tree: the predicate is called
  on each node before its children, on siblings in the order of the children list, the
  first node for which it holds is returned and no later node is visited; the result is
  none when the predicate holds for no node. \<^verbatim>\<open>ForEach\<close> calls its visitor along the same
  pre-order, which holds every node reachable from the root exactly once.
\<close>

theorem Find_preorder:
  assumes "unfolds h t" and "distinct (preorder t)"
  shows
   "Find h (rootOf t) pred s = Some (firstMatch h pred (preorder t) s) \<and>
    ((\<forall>a \<in> set (preorder t). \<forall>s. \<not> fst (pred (Pid (h ! a)) (Stats (h ! a)) s)) \<longrightarrow>
       (\<exists>s'. Find h (rootOf t) pred s = Some (None, s'))) \<and>
    ForEach h (rootOf t) fn s =
      Some (fold (\<lambda>a. fn (Pid (h ! a)) (Stats (h ! a))) (preorder t) s) \<and>
    set (preorder t) = reachable h (rootOf t) \<and>
    (\<forall>b \<in> reachable h (rootOf t). count_list (preorder t) b = 1)"
proof (intro conjI impI ballI)
  show "Find h (rootOf t) pred s = Some (firstMatch h pred (preorder t) s)"
    by (rule Find_tree [OF assms(1)])
next
  assume "\<forall>a \<in> set (preorder t). \<forall>s. \<not> fst (pred (Pid (h ! a)) (Stats (h ! a)) s)"
  from firstMatch_none [OF this, of s]
  obtain s' where "firstMatch h pred (preorder t) s = (None, s')"
    by (cases "firstMatch h pred (preorder t) s") auto
  then show "\<exists>s'. Find h (rootOf t) pred s = Some (None, s')"
    by (simp add: Find_tree [OF assms(1)])
next
  show "ForEach h (rootOf t) fn s =
      Some (fold (\<lambda>a. fn (Pid (h ! a)) (Stats (h ! a))) (preorder t) s)"
    by (simp add: ForEach_def Find_tree [OF assms(1)] firstMatch_never)
next
  show "set (preorder t) = reachable h (rootOf t)"
    by (rule preorder_reachable [OF assms(1)])
next
  fix b assume "b \<in> reachable h (rootOf t)"
  then have "b \<in> set (preorder t)" by (simp add: preorder_reachable [OF assms(1)])
  with assms(2) show "count_list (preorder t) b = 1" by (rule count_list_distinct)
qed

theorem Find_preorder_witness:
  "unfolds [\<lparr>Pid = 1, Stats = Map.empty, Children = [1, 3]\<rparr>, \<lparr>Pid = 5, Stats = Map.empty, Children = [2]\<rparr>,
            \<lparr>Pid = 7, Stats = Map.empty, Children = []\<rparr>, \<lparr>Pid = 9, Stats = Map.empty, Children = []\<rparr>]
     (PNode 0 [PNode 1 [PNode 2 []], PNode 3 []]) \<and>
   distinct (preorder (PNode 0 [PNode 1 [PNode 2 []], PNode 3 []])) \<and>
   Find [\<lparr>Pid = 1, Stats = Map.empty, Children = [1, 3]\<rparr>, \<lparr>Pid = 5, Stats = Map.empty, Children = [2]\<rparr>,
            \<lparr>Pid = 7, Stats = Map.empty, Children = []\<rparr>, \<lparr>Pid = 9, Stats = Map.empty, Children = []\<rparr>]
     0 (\<lambda>pid stats log. (pid > 6, log @ [pid])) [] = Some (Some 2, [1, 5, 7]) \<and>
   ForEach [\<lparr>Pid = 1, Stats = Map.empty, Children = [1, 3]\<rparr>, \<lparr>Pid = 5, Stats = Map.empty, Children = [2]\<rparr>,
            \<lparr>Pid = 7, Stats = Map.empty, Children = []\<rparr>, \<lparr>Pid = 9, Stats = Map.empty, Children = []\<rparr>]
     0 (\<lambda>pid stats log. log @ [pid]) [] = Some [1, 5, 7, 9]"
proof -
  let ?h = "[\<lparr>Pid = 1, Stats = Map.empty, Children = [1, 3]\<rparr>, \<lparr>Pid = 5, Stats = Map.empty, Children = [2]\<rparr>,
            \<lparr>Pid = 7, Stats = Map.empty, Children = []\<rparr>, \<lparr>Pid = 9, Stats = Map.empty, Children = []\<rparr>]"
  let ?t = "PNode 0 [PNode 1 [PNode 2 []], PNode 3 []]"
  have u: "unfolds ?h ?t" and d: "distinct (preorder ?t)" by simp_all
  from Find_preorder [OF u d, of "\<lambda>pid stats log. (pid > 6, log @ [pid])" "[]" "\<lambda>pid stats log. log @ [pid]"]
  have "Find ?h 0 (\<lambda>pid stats log. (pid > 6, log @ [pid])) [] = Some (Some 2, [1, 5, 7])"
    and "ForEach ?h 0 (\<lambda>pid stats log. log @ [pid]) [] = Some [1, 5, 7, 9]"
    by simp_all
  with u d show ?thesis by blast
qed

section \<open>Properties of the tree builder\<close>

lemma pidIndex_snoc: "pidIndex (rs @ [r]) = (pidIndex rs)(pidOf r \<mapsto> length rs)"
proof
  fix p
  have "filter (\<lambda>i. pidOf ((rs @ [r]) ! i) = p) (rev [0..<length rs]) =
        filter (\<lambda>i. pidOf (rs ! i) = p) (rev [0..<length rs])"
    by (rule filter_cong) (auto simp: nth_append)
  then show "pidIndex (rs @ [r]) p = ((pidIndex rs)(pidOf r \<mapsto> length rs)) p"
    by (simp add: pidIndex_def)
qed

lemma pidIndex_Nil: "pidIndex [] = Map.empty"
  by (rule ext) (simp add: pidIndex_def)

lemma lastWithPid_snoc:
  "lastWithPid (rs @ [r]) i \<longleftrightarrow>
     i = length rs \<or> (lastWithPid rs i \<and> pidOf r \<noteq> pidOf (rs ! i))"
  by (auto simp: lastWithPid_def nth_append less_Suc_eq)

lemma pidIndex_iff: "pidIndex rs p = Some i \<longleftrightarrow> lastWithPid rs i \<and> pidOf (rs ! i) = p"
proof (induction rs arbitrary: i rule: rev_induct)
  case Nil
  show ?case by (simp add: pidIndex_Nil lastWithPid_def)
next
  case (snoc r rs)
  have lt: "lastWithPid rs i \<Longrightarrow> i < length rs" by (simp add: lastWithPid_def)
  show ?case
    unfolding pidIndex_snoc lastWithPid_snoc using snoc.IH [of i] lt
    by (auto simp: nth_append)
qed

lemma getPid_pidOf: "\<not> isl (getPid r ''PID'') \<Longrightarrow> getPid r ''PID'' = Inr (pidOf r)"
  by (cases "getPid r ''PID''") (simp_all add: pidOf_def)

lemma getPid_ppidOf: "\<not> isl (getPid r ''PPID'') \<Longrightarrow> getPid r ''PPID'' = Inr (ppidOf r)"
  by (cases "getPid r ''PPID''") (simp_all add: ppidOf_def)

lemma collectNodes_append:
  "collectNodes (xs @ ys) h nodes =
     (case collectNodes xs h nodes of
        Inl err \<Rightarrow> Inl err
      | Inr (h', nodes') \<Rightarrow> collectNodes ys h' nodes')"
  by (induction xs arbitrary: h nodes) (auto split: sum.splits)

lemma collectNodes_closed:
  "\<forall>r \<in> set rs. \<not> isl (getPid r ''PID'') \<Longrightarrow>
   collectNodes rs [] Map.empty =
     Inr (map (\<lambda>r. \<lparr>Pid = pidOf r, Stats = r, Children = []\<rparr>) rs, pidIndex rs)"
proof (induction rs rule: rev_induct)
  case Nil
  show ?case by (simp add: pidIndex_Nil)
next
  case (snoc r rs)
  let ?mk = "\<lambda>r. \<lparr>Pid = pidOf r, Stats = r, Children = []\<rparr>"
  from snoc.prems have "\<forall>r \<in> set rs. \<not> isl (getPid r ''PID'')" by simp
  from snoc.IH [OF this]
  have "collectNodes (rs @ [r]) [] Map.empty = collectNodes [r] (map ?mk rs) (pidIndex rs)"
    by (simp only: collectNodes_append sum.case prod.case)
  also from snoc.prems have "\<dots> = Inr (map ?mk rs @ [?mk r], (pidIndex rs)(pidOf r \<mapsto> length rs))"
    by (simp add: getPid_pidOf)
  also have "map ?mk rs @ [?mk r] = map ?mk (rs @ [r])" by simp
  finally show ?case by (simp only: pidIndex_snoc)
qed

lemma collectNodes2_append:
  "collectNodes2 (xs @ ys) h nodes =
     (case collectNodes2 xs h nodes of
        Inl err \<Rightarrow> Inl err
      | Inr (h', nodes') \<Rightarrow> collectNodes2 ys h' nodes')"
  by (induction xs arbitrary: h nodes) (auto split: sum.splits)

lemma collectNodes2_closed:
  "\<forall>r \<in> set rs. \<not> isl (getPid r ''PID'') \<and> \<not> isl (getPid r ''PPID'') \<Longrightarrow>
   collectNodes2 rs [] Map.empty =
     Inr (map (\<lambda>r. \<lparr>Pid = pidOf r, Stats = r(''PID'' := None, ''PPID'' := None),
                     Children = [], ParentPid = ppidOf r\<rparr>) rs, pidIndex rs)"
proof (induction rs rule: rev_induct)
  case Nil
  show ?case by (simp add: pidIndex_Nil)
next
  case (snoc r rs)
  let ?mk = "\<lambda>r. \<lparr>Pid = pidOf r, Stats = r(''PID'' := None, ''PPID'' := None),
                     Children = [], ParentPid = ppidOf r\<rparr>"
  from snoc.prems
  have "\<forall>r \<in> set rs. \<not> isl (getPid r ''PID'') \<and> \<not> isl (getPid r ''PPID'')" by simp
  from snoc.IH [OF this]
  have "collectNodes2 (rs @ [r]) [] Map.empty = collectNodes2 [r] (map ?mk rs) (pidIndex rs)"
    by (simp only: collectNodes2_append sum.case prod.case)
  also from snoc.prems have "\<dots> = Inr (map ?mk rs @ [?mk r], (pidIndex rs)(pidOf r \<mapsto> length rs))"
    by (simp add: getPid_pidOf getPid_ppidOf)
  also have "map ?mk rs @ [?mk r] = map ?mk (rs @ [r])" by simp
  finally show ?case by (simp only: pidIndex_snoc)
qed

lemma linkNodes_closed:
  "\<forall>(k, a) \<in> set es. a < length h \<and> getPid (Stats (h ! a)) ''PPID'' = Inr (pp a) \<Longrightarrow>
   linkNodes es N h =
     Inr (map (\<lambda>b. (h ! b)\<lparr>Children := Children (h ! b) @
                 map snd (filter (\<lambda>(k, a). N (pp a) = Some b) es)\<rparr>) [0..<length h])"
proof (induction es arbitrary: h)
  case Nil
  show ?case by (simp add: map_nth)
next
  case (Cons e es)
  obtain k a where e: "e = (k, a)" by (cases e)
  from Cons.prems e have a: "a < length h" "getPid (Stats (h ! a)) ''PPID'' = Inr (pp a)"
    and rest: "\<forall>(k, a) \<in> set es. a < length h \<and> getPid (Stats (h ! a)) ''PPID'' = Inr (pp a)"
    by simp_all
  show ?case
  proof (cases "N (pp a)")
    case None
    with a e Cons.IH [OF rest] show ?thesis by simp
  next
    case (Some parent)
    let ?h1 = "h[parent := (h ! parent)\<lparr>Children := Children (h ! parent) @ [a]\<rparr>]"
    have st: "Stats (?h1 ! b) = Stats (h ! b)" for b
      by (cases "parent < length h") (auto simp: nth_list_update list_update_beyond)
    from rest have "\<forall>(k, a) \<in> set es. a < length ?h1 \<and> getPid (Stats (?h1 ! a)) ''PPID'' = Inr (pp a)"
      by (simp add: st)
    from Cons.IH [OF this]
    have "linkNodes es N ?h1 =
      Inr (map (\<lambda>b. (?h1 ! b)\<lparr>Children := Children (?h1 ! b) @
                 map snd (filter (\<lambda>(k, a). N (pp a) = Some b) es)\<rparr>) [0..<length h])"
      by simp
    moreover have "(?h1 ! b)\<lparr>Children := Children (?h1 ! b) @
                 map snd (filter (\<lambda>(k, a). N (pp a) = Some b) es)\<rparr> =
          (h ! b)\<lparr>Children := Children (h ! b) @
                 map snd (filter (\<lambda>(k, a). N (pp a) = Some b) (e # es))\<rparr>"
      if "b < length h" for b
      using that Some e by (cases "b = parent") simp_all
    ultimately show ?thesis using a e Some by simp
  qed
qed

lemma linkNodes2_closed:
  "\<forall>(k, a) \<in> set es. a < length h \<Longrightarrow>
   linkNodes2 es N h =
     map (\<lambda>b. (h ! b)\<lparr>Children := Children (h ! b) @
                 map snd (filter (\<lambda>(k, a). N (ParentPid (h ! a)) = Some b) es)\<rparr>) [0..<length h]"
proof (induction es arbitrary: h)
  case Nil
  show ?case by (simp add: map_nth)
next
  case (Cons e es)
  obtain k a where e: "e = (k, a)" by (cases e)
  from Cons.prems e have a: "a < length h" and rest: "\<forall>(k, a) \<in> set es. a < length h"
    by simp_all
  show ?case
  proof (cases "N (ParentPid (h ! a))")
    case None
    with a e Cons.IH [OF rest] show ?thesis by simp
  next
    case (Some parent)
    let ?h1 = "h[parent := (h ! parent)\<lparr>Children := Children (h ! parent) @ [a]\<rparr>]"
    have st: "ParentPid (?h1 ! b) = ParentPid (h ! b)" for b
      by (cases "parent < length h") (auto simp: nth_list_update list_update_beyond)
    from rest have "\<forall>(k, a) \<in> set es. a < length ?h1" by simp
    from Cons.IH [OF this]
    have "linkNodes2 es N ?h1 =
      map (\<lambda>b. (?h1 ! b)\<lparr>Children := Children (?h1 ! b) @
                 map snd (filter (\<lambda>(k, a). N (ParentPid (h ! a)) = Some b) es)\<rparr>) [0..<length h]"
      by (simp add: st)
    moreover have "(?h1 ! b)\<lparr>Children := Children (?h1 ! b) @
                 map snd (filter (\<lambda>(k, a). N (ParentPid (h ! a)) = Some b) es)\<rparr> =
          (h ! b)\<lparr>Children := Children (h ! b) @
                 map snd (filter (\<lambda>(k, a). N (ParentPid (h ! a)) = Some b) (e # es))\<rparr>"
      if "b < length h" for b
      using that Some e by (cases "b = parent") simp_all
    ultimately show ?thesis using a e Some by simp
  qed
qed

lemma extractable_nth:
  "extractable rs \<Longrightarrow> i < length rs \<Longrightarrow>
   getPid (rs ! i) ''PID'' = Inr (pidOf (rs ! i)) \<and> getPid (rs ! i) ''PPID'' = Inr (ppidOf (rs ! i))"
  by (simp add: extractable_def list_all_length getPid_pidOf getPid_ppidOf)

lemma rangeOrder_entries:
  "rangeOrder m es \<Longrightarrow> (k, a) \<in> set es \<longleftrightarrow> m k = Some a"
  by (auto simp: rangeOrder_def)

lemma pidIndex_less: "pidIndex rs p = Some a \<Longrightarrow> a < length rs"
  by (simp add: pidIndex_iff lastWithPid_def)

lemma buildProcTree_closed:
  assumes "extractable rs" and "rangeOrder (pidIndex rs) (rng (pidIndex rs))"
  shows "buildProcTree rng rs =
    (case pidIndex rs 1 of
       None \<Rightarrow> Inl RootNotFoundError
     | Some root \<Rightarrow>
         Inr (root, map (\<lambda>b. \<lparr>Pid = pidOf (rs ! b), Stats = rs ! b,
                               Children = childrenOf rs (rng (pidIndex rs)) b\<rparr>) [0..<length rs]))"
proof -
  let ?mk = "\<lambda>r. \<lparr>Pid = pidOf r, Stats = r, Children = []\<rparr>"
  let ?h = "map ?mk rs" and ?es = "rng (pidIndex rs)"
  from assms(1) have "\<forall>r \<in> set rs. \<not> isl (getPid r ''PID'')"
    by (simp add: extractable_def list_all_iff)
  then have c: "collectNodes rs [] Map.empty = Inr (?h, pidIndex rs)"
    by (rule collectNodes_closed)
  have "\<forall>(k, a) \<in> set ?es. a < length ?h \<and> getPid (Stats (?h ! a)) ''PPID'' = Inr (ppidOf (rs ! a))"
  proof (clarify)
    fix k a assume "(k, a) \<in> set ?es"
    with assms(2) have "pidIndex rs k = Some a" by (simp add: rangeOrder_entries)
    then have "a < length rs" by (rule pidIndex_less)
    with extractable_nth [OF assms(1) this]
    show "a < length ?h \<and> getPid (Stats (?h ! a)) ''PPID'' = Inr (ppidOf (rs ! a))" by simp
  qed
  from linkNodes_closed [OF this, of "pidIndex rs"]
  have "linkNodes ?es (pidIndex rs) ?h =
    Inr (map (\<lambda>b. \<lparr>Pid = pidOf (rs ! b), Stats = rs ! b,
                               Children = childrenOf rs ?es b\<rparr>) [0..<length rs])"
    by (simp add: childrenOf_def)
  with c show ?thesis by (simp add: buildProcTree_def split: option.splits)
qed

lemma buildProcTree2_closed:
  assumes "extractable rs" and "rangeOrder (pidIndex rs) (rng (pidIndex rs))"
  shows "buildProcTree2 rng rs =
    (case pidIndex rs 1 of
       None \<Rightarrow> Inl RootNotFoundError
     | Some root \<Rightarrow>
         Inr (root, map (\<lambda>b. \<lparr>Pid = pidOf (rs ! b),
                               Stats = (rs ! b)(''PID'' := None, ''PPID'' := None),
                               Children = childrenOf rs (rng (pidIndex rs)) b,
                               ParentPid = ppidOf (rs ! b)\<rparr>) [0..<length rs]))"
proof -
  let ?mk = "\<lambda>r. \<lparr>Pid = pidOf r, Stats = r(''PID'' := None, ''PPID'' := None),
                     Children = [], ParentPid = ppidOf r\<rparr>"
  let ?h = "map ?mk rs" and ?es = "rng (pidIndex rs)"
  from assms(1) have "\<forall>r \<in> set rs. \<not> isl (getPid r ''PID'') \<and> \<not> isl (getPid r ''PPID'')"
    by (simp add: extractable_def list_all_iff)
  then have c: "collectNodes2 rs [] Map.empty = Inr (?h, pidIndex rs)"
    by (rule collectNodes2_closed)
  have v: "\<forall>(k, a) \<in> set ?es. a < length ?h"
  proof (clarify)
    fix k a assume "(k, a) \<in> set ?es"
    with assms(2) have "pidIndex rs k = Some a" by (simp add: rangeOrder_entries)
    then show "a < length ?h" by (simp add: pidIndex_less)
  qed
  have f: "filter (\<lambda>(k, a). pidIndex rs (ParentPid (?h ! a)) = Some b) ?es =
           filter (\<lambda>(k, a). pidIndex rs (ppidOf (rs ! a)) = Some b) ?es" for b
    by (rule filter_cong) (use v in auto)
  from linkNodes2_closed [OF v, of "pidIndex rs"]
  have "linkNodes2 ?es (pidIndex rs) ?h =
    map (\<lambda>b. \<lparr>Pid = pidOf (rs ! b), Stats = (rs ! b)(''PID'' := None, ''PPID'' := None),
                               Children = childrenOf rs ?es b,
                               ParentPid = ppidOf (rs ! b)\<rparr>) [0..<length rs]"
    by (simp add: childrenOf_def f)
  with c show ?thesis by (simp add: buildProcTree2_def split: option.splits)
qed

lemma childrenOf_set:
  assumes "rangeOrder (pidIndex rs) es"
  shows "set (childrenOf rs es b) = {c. parentOf rs c = Some b}"
proof -
  have "set (childrenOf rs es b) =
    {a. (\<exists>k. pidIndex rs k = Some a) \<and> pidIndex rs (ppidOf (rs ! a)) = Some b}"
    using rangeOrder_entries [OF assms] by (force simp: childrenOf_def)
  also have "\<dots> = {c. parentOf rs c = Some b}"
    by (auto simp: parentOf_def pidIndex_iff)
  finally show ?thesis .
qed

lemma childrenOf_distinct:
  assumes "rangeOrder (pidIndex rs) es"
  shows "distinct (childrenOf rs es b)"
proof -
  from assms have d: "distinct (map fst es)" by (simp add: rangeOrder_def)
  then have "distinct es" by (simp add: distinct_map)
  have "inj_on snd (set es)"
  proof (rule inj_onI)
    fix x y assume x: "x \<in> set es" and y: "y \<in> set es" and s: "snd x = snd y"
    from x rangeOrder_entries [OF assms, of "fst x" "snd x"] have "pidIndex rs (fst x) = Some (snd x)" by simp
    moreover from y rangeOrder_entries [OF assms, of "fst y" "snd y"] have "pidIndex rs (fst y) = Some (snd y)" by simp
    ultimately have "fst x = fst y" using s by (simp add: pidIndex_iff)
    with s show "x = y" by (simp add: prod_eq_iff)
  qed
  with \<open>distinct es\<close> have "distinct (map snd es)" by (simp add: distinct_map)
  then show ?thesis unfolding childrenOf_def by (rule distinct_map_filter)
qed

lemma ancestor_add:
  "ancestor rs (m + n) i = (case ancestor rs m i of None \<Rightarrow> None | Some j \<Rightarrow> ancestor rs n j)"
  by (induction m arbitrary: i) (auto split: option.splits)

lemma ancestor_Suc_right:
  "ancestor rs (Suc m) i = (case ancestor rs m i of None \<Rightarrow> None | Some j \<Rightarrow> parentOf rs j)"
proof -
  have "ancestor rs (Suc 0) j = parentOf rs j" for j by (simp split: option.splits)
  with ancestor_add [of rs m "Suc 0" i] show ?thesis
    by (simp del: ancestor.simps split: option.splits)
qed

lemma depth_unique_less:
  assumes "\<forall>k. ancestor rs (Suc k) r \<noteq> Some r"
    and "ancestor rs k c = Some r" and "ancestor rs k' c = Some r"
  shows "\<not> k < k'"
proof
  assume "k < k'"
  then obtain d where "k' = k + Suc d" by (auto simp: less_iff_Suc_add)
  with assms(3) have "(case ancestor rs k c of None \<Rightarrow> None | Some j \<Rightarrow> ancestor rs (Suc d) j) = Some r"
    by (simp only: ancestor_add)
  with assms(2) have "ancestor rs (Suc d) r = Some r" by (simp only: option.case)
  with assms(1) show False by blast
qed

lemma depth_unique:
  assumes "\<forall>k. ancestor rs (Suc k) r \<noteq> Some r"
    and "ancestor rs k c = Some r" and "ancestor rs k' c = Some r"
  shows "k = k'"
  using depth_unique_less [OF assms(1,2,3)] depth_unique_less [OF assms(1,3,2)] by simp

lemma parentOf_less: "parentOf rs c = Some b \<Longrightarrow> c < length rs \<and> b < length rs"
  by (auto simp: parentOf_def lastWithPid_def pidIndex_less split: if_splits)

lemma ancestor_less: "ancestor rs k c = Some r \<Longrightarrow> r < length rs \<Longrightarrow> c < length rs"
  by (cases k) (auto split: option.splits dest: parentOf_less)

lemma depth_bound:
  assumes "\<forall>k. ancestor rs (Suc k) r \<noteq> Some r" and "r < length rs"
  shows "\<exists>M. \<forall>c k. ancestor rs k c = Some r \<longrightarrow> k < M"
proof -
  let ?D = "{c. \<exists>k. ancestor rs k c = Some r}"
  let ?f = "\<lambda>c. THE k. ancestor rs k c = Some r"
  have "?D \<subseteq> {..<length rs}" using ancestor_less [OF _ assms(2)] by auto
  then have fin: "finite (?f ` ?D)" by (auto intro: finite_subset)
  have "k < Suc (Max (?f ` ?D))" if "ancestor rs k c = Some r" for c k
  proof -
    from that have "?f c = k" by (intro the_equality) (auto intro: depth_unique [OF assms(1)])
    moreover from that have "?f c \<in> ?f ` ?D" by blast
    ultimately have "k \<le> Max (?f ` ?D)" using fin by (metis Max_ge)
    then show ?thesis by simp
  qed
  then show ?thesis by blast
qed

lemma forest_exists: "\<forall>d \<in> set cs. \<exists>t. Q d t \<Longrightarrow> \<exists>ts. list_all2 Q cs ts"
proof (induction cs)
  case Nil
  show ?case by simp
next
  case (Cons d cs)
  then obtain t ts where "Q d t" "list_all2 Q cs ts" by auto
  then have "list_all2 Q (d # cs) (t # ts)" by simp
  then show ?case ..
qed

lemma forest_props:
  assumes "list_all2 (\<lambda>d t. unfolds h t \<and> rootOf t = d \<and> distinct (preorder t) \<and> set (preorder t) = B d) cs ts"
    and "distinct cs"
    and "\<forall>d \<in> set cs. \<forall>d' \<in> set cs. d \<noteq> d' \<longrightarrow> B d \<inter> B d' = {}"
  shows "map rootOf ts = cs \<and> (\<forall>t \<in> set ts. unfolds h t) \<and>
         distinct (concat (map preorder ts)) \<and>
         set (concat (map preorder ts)) = (\<Union>d \<in> set cs. B d)"
  using assms
proof (induction rule: list_all2_induct)
  case Nil
  show ?case by simp
next
  case (Cons d cs t ts)
  from Cons.prems have "distinct cs"
    and "\<forall>d \<in> set cs. \<forall>d' \<in> set cs. d \<noteq> d' \<longrightarrow> B d \<inter> B d' = {}" by simp_all
  with Cons.IH have IH: "map rootOf ts = cs" "\<forall>t \<in> set ts. unfolds h t"
    "distinct (concat (map preorder ts))"
    "set (concat (map preorder ts)) = (\<Union>d \<in> set cs. B d)" by simp_all
  from Cons.prems have "\<forall>d' \<in> set cs. B d \<inter> B d' = {}" by auto
  then have "B d \<inter> (\<Union>d \<in> set cs. B d) = {}" by blast
  with Cons.hyps(1) IH show ?case by simp
qed

lemma subtree_exists:
  fixes h :: "('a ProcNode_scheme) list"
  assumes len: "length h = length rs"
    and ch: "\<forall>b<length rs. distinct (Children (h ! b)) \<and>
                set (Children (h ! b)) = {c. parentOf rs c = Some b}"
    and noloop: "\<forall>k. ancestor rs (Suc k) r \<noteq> Some r"
    and r: "r < length rs"
    and bound: "\<forall>c k. ancestor rs k c = Some r \<longrightarrow> k < M"
  shows "ancestor rs k c = Some r \<Longrightarrow> M - k = n \<Longrightarrow>
    \<exists>t. unfolds h t \<and> rootOf t = c \<and> distinct (preorder t) \<and>
        set (preorder t) = {x. \<exists>m. ancestor rs m x = Some c}"
proof (induction n arbitrary: c k)
  case 0
  with bound show ?case by force
next
  case (Suc n)
  let ?B = "\<lambda>d. {x. \<exists>m. ancestor rs m x = Some d}"
  let ?cs = "Children (h ! c)"
  from Suc.prems(1) r have c: "c < length rs" by (rule ancestor_less)
  with ch have cs: "distinct ?cs" "set ?cs = {d. parentOf rs d = Some c}" by simp_all
  have depth: "ancestor rs (Suc k) d = Some r" if "d \<in> set ?cs" for d
    using that cs(2) Suc.prems(1) by simp
  have "\<forall>d \<in> set ?cs. \<exists>t. unfolds h t \<and> rootOf t = d \<and> distinct (preorder t) \<and>
        set (preorder t) = ?B d"
  proof
    fix d assume d: "d \<in> set ?cs"
    from depth [OF d] bound have "Suc k < M" by blast
    with Suc.prems(2) have "M - Suc k = n" by simp
    from Suc.IH [OF depth [OF d] this]
    show "\<exists>t. unfolds h t \<and> rootOf t = d \<and> distinct (preorder t) \<and> set (preorder t) = ?B d" .
  qed
  from forest_exists [OF this] obtain ts where
    ts: "list_all2 (\<lambda>d t. unfolds h t \<and> rootOf t = d \<and> distinct (preorder t) \<and>
           set (preorder t) = ?B d) ?cs ts" ..
  have disj: "\<forall>d \<in> set ?cs. \<forall>d' \<in> set ?cs. d \<noteq> d' \<longrightarrow> ?B d \<inter> ?B d' = {}"
  proof (intro ballI impI)
    fix d d' assume d: "d \<in> set ?cs" and d': "d' \<in> set ?cs" and ne: "d \<noteq> d'"
    show "?B d \<inter> ?B d' = {}"
    proof (rule ccontr)
      assume "?B d \<inter> ?B d' \<noteq> {}"
      then obtain x m m' where m: "ancestor rs m x = Some d" and m': "ancestor rs m' x = Some d'"
        by blast
      from m depth [OF d] have "ancestor rs (m + Suc k) x = Some r"
        by (simp only: ancestor_add option.case)
      moreover from m' depth [OF d'] have "ancestor rs (m' + Suc k) x = Some r"
        by (simp only: ancestor_add option.case)
      ultimately have "m + Suc k = m' + Suc k" by (rule depth_unique [OF noloop])
      with m m' ne show False by simp
    qed
  qed
  from forest_props [OF ts cs(1) disj]
  have f: "map rootOf ts = ?cs" "\<forall>t \<in> set ts. unfolds h t"
    "distinct (concat (map preorder ts))"
    "set (concat (map preorder ts)) = (\<Union>d \<in> set ?cs. ?B d)" by simp_all
  let ?t = "PNode c ts"
  have "unfolds h ?t" using c len f(1,2) by simp
  moreover have "rootOf ?t = c" by simp
  moreover have notin: "c \<notin> (\<Union>d \<in> set ?cs. ?B d)"
  proof
    assume "c \<in> (\<Union>d \<in> set ?cs. ?B d)"
    then obtain d m where d: "d \<in> set ?cs" and m: "ancestor rs m c = Some d" by blast
    from m depth [OF d] have "ancestor rs (m + Suc k) c = Some r"
      by (simp only: ancestor_add option.case)
    from depth_unique [OF noloop this Suc.prems(1)] show False by simp
  qed
  then have "distinct (preorder ?t)" using f(3,4) by simp
  moreover have "set (preorder ?t) = ?B c"
  proof -
    have "?B c = insert c (\<Union>d \<in> set ?cs. ?B d)"
    proof (intro set_eqI iffI)
      fix x assume "x \<in> ?B c"
      then obtain m where m: "ancestor rs m x = Some c" by blast
      show "x \<in> insert c (\<Union>d \<in> set ?cs. ?B d)"
      proof (cases m)
        case 0
        with m show ?thesis by simp
      next
        case (Suc m0)
        with m obtain d where "ancestor rs m0 x = Some d" "parentOf rs d = Some c"
          by (auto simp: ancestor_Suc_right simp del: ancestor.simps split: option.splits)
        with cs(2) show ?thesis by blast
      qed
    next
      fix x assume "x \<in> insert c (\<Union>d \<in> set ?cs. ?B d)"
      then consider "x = c" | d m where "d \<in> set ?cs" "ancestor rs m x = Some d" by blast
      then show "x \<in> ?B c"
      proof cases
        case 1
        have "ancestor rs 0 c = Some c" by simp
        with 1 show ?thesis by blast
      next
        case 2
        with cs(2) have "ancestor rs (Suc m) x = Some c"
          by (simp add: ancestor_Suc_right del: ancestor.simps)
        then show ?thesis by blast
      qed
    qed
    with f(4) show ?thesis by simp
  qed
  ultimately show ?case by blast
qed

lemma pidIndex_dom: "dom (pidIndex rs) = pidOf ` set rs"
proof (induction rs rule: rev_induct)
  case Nil
  show ?case by (simp add: pidIndex_Nil)
next
  case (snoc r rs)
  have "dom (pidIndex (rs @ [r])) = insert (pidOf r) (dom (pidIndex rs))"
    by (simp add: pidIndex_snoc)
  with snoc show ?case by simp
qed

lemma pidIndex_root:
  assumes "\<exists>r \<in> set rs. pidOf r = 1"
  shows "\<exists>root. pidIndex rs 1 = Some root"
proof -
  from assms have "1 \<in> pidOf ` set rs" by force
  then have "1 \<in> dom (pidIndex rs)" by (simp add: pidIndex_dom)
  then show ?thesis by (simp add: domIff)
qed

lemma pidIndex_no_root:
  assumes "\<forall>r \<in> set rs. pidOf r \<noteq> 1"
  shows "pidIndex rs 1 = None"
proof -
  from assms have "1 \<notin> pidOf ` set rs" by force
  then have "1 \<notin> dom (pidIndex rs)" by (simp add: pidIndex_dom)
  then show ?thesis by (simp add: domIff)
qed

lemma built_tree:
  fixes h :: "('a ProcNode_scheme) list"
  assumes len: "length h = length rs"
    and ch: "\<forall>b<length rs. Children (h ! b) = childrenOf rs es b"
    and ro: "rangeOrder (pidIndex rs) es"
    and root: "pidIndex rs 1 = Some r"
    and noloop: "\<not> rootLoop rs"
  shows "\<exists>t. unfolds h t \<and> rootOf t = r \<and> distinct (preorder t) \<and>
             set (preorder t) = {i. tracesToRoot rs i}"
proof -
  from root have r: "r < length rs" by (rule pidIndex_less)
  from noloop root have nl: "\<forall>k. ancestor rs (Suc k) r \<noteq> Some r" by (auto simp: rootLoop_def)
  from depth_bound [OF nl r] obtain M where M: "\<forall>c k. ancestor rs k c = Some r \<longrightarrow> k < M" ..
  have ch': "\<forall>b<length rs. distinct (Children (h ! b)) \<and>
                set (Children (h ! b)) = {c. parentOf rs c = Some b}"
    using ch childrenOf_set [OF ro] childrenOf_distinct [OF ro] by simp
  have "ancestor rs 0 r = Some r" by simp
  from subtree_exists [OF len ch' nl r M this refl]
  obtain t where t: "unfolds h t" "rootOf t = r" "distinct (preorder t)"
    "set (preorder t) = {x. \<exists>m. ancestor rs m x = Some r}" by blast
  from root have "{x. \<exists>m. ancestor rs m x = Some r} = {i. tracesToRoot rs i}"
    by (auto simp: tracesToRoot_def)
  with t show ?thesis by auto
qed

lemma built_reachable:
  fixes h :: "('a ProcNode_scheme) list"
  assumes len: "length h = length rs"
    and ch: "\<forall>b<length rs. Children (h ! b) = childrenOf rs es b"
    and ro: "rangeOrder (pidIndex rs) es"
    and root: "pidIndex rs 1 = Some r"
    and a: "a \<in> reachable h r"
  shows "lastWithPid rs a"
proof -
  let ?E = "{(a, c). a < length h \<and> c \<in> set (Children (h ! a))}"
  from a have "(r, a) \<in> ?E\<^sup>*" by (simp add: reachable_def)
  then show ?thesis
  proof (induction rule: rtrancl_induct)
    case base
    from root show ?case by (simp add: pidIndex_iff)
  next
    case (step y z)
    from step.hyps(2) len have y: "y < length rs" and z: "z \<in> set (Children (h ! y))" by simp_all
    from ch y have "Children (h ! y) = childrenOf rs es y" by blast
    with z have "z \<in> set (childrenOf rs es y)" by simp
    with childrenOf_set [OF ro] have "parentOf rs z = Some y" by simp
    then show ?case by (simp add: parentOf_def split: if_splits)
  qed
qed

lemma pidIndex_fold:
  "pidIndex rs = fold (\<lambda>(i, r) m. m(pidOf r \<mapsto> i)) (zip [0..<length rs] rs) Map.empty"
proof (induction rs rule: rev_induct)
  case Nil
  show ?case by (simp add: pidIndex_Nil)
next
  case (snoc r rs)
  have "zip [0..<length (rs @ [r])] (rs @ [r]) = zip [0..<length rs] rs @ [(length rs, r)]"
    by simp
  then show ?case by (simp add: pidIndex_snoc snoc.IH)
qed

text \<open>
  Claim C4. For every record list whose \<^verbatim>\<open>PID\<close> and \<^verbatim>\<open>PPID\<close> fields all extract, in both
  revisions: when no record has pid 1 the builder fails with \<^verbatim>\<open>RootNotFoundError\<close> (so it
  does on the empty list); when some record has pid 1 it succeeds and the root node has
  pid 1.
\<close>

theorem buildProcTree_root:
  assumes "extractable rs" and "rangeOrder (pidIndex rs) (rng (pidIndex rs))"
  shows
   "((\<forall>r \<in> set rs. pidOf r \<noteq> 1) \<longrightarrow>
       buildProcTree rng rs = Inl RootNotFoundError \<and>
       buildProcTree2 rng rs = Inl RootNotFoundError) \<and>
    ((\<exists>r \<in> set rs. pidOf r = 1) \<longrightarrow>
       (\<exists>root h h2. buildProcTree rng rs = Inr (root, h) \<and>
          buildProcTree2 rng rs = Inr (root, h2) \<and> root < length h \<and> root < length h2 \<and>
          Pid (h ! root) = 1 \<and> Pid (h2 ! root) = 1))"
proof (intro conjI impI)
  assume "\<forall>r \<in> set rs. pidOf r \<noteq> 1"
  then have "pidIndex rs 1 = None" by (rule pidIndex_no_root)
  then show "buildProcTree rng rs = Inl RootNotFoundError"
    and "buildProcTree2 rng rs = Inl RootNotFoundError"
    by (simp_all add: buildProcTree_closed [of rs rng, OF assms] buildProcTree2_closed [of rs rng, OF assms])
next
  assume "\<exists>r \<in> set rs. pidOf r = 1"
  then obtain root where root: "pidIndex rs 1 = Some root" using pidIndex_root by blast
  then have lt: "root < length rs" and p: "pidOf (rs ! root) = 1"
    by (simp_all add: pidIndex_iff lastWithPid_def)
  let ?h = "map (\<lambda>b. \<lparr>Pid = pidOf (rs ! b), Stats = rs ! b,
                   Children = childrenOf rs (rng (pidIndex rs)) b\<rparr>) [0..<length rs]"
  let ?h2 = "map (\<lambda>b. \<lparr>Pid = pidOf (rs ! b),
                   Stats = (rs ! b)(''PID'' := None, ''PPID'' := None),
                   Children = childrenOf rs (rng (pidIndex rs)) b,
                   ParentPid = ppidOf (rs ! b)\<rparr>) [0..<length rs]"
  have "buildProcTree rng rs = Inr (root, ?h)" "buildProcTree2 rng rs = Inr (root, ?h2)"
    using root by (simp_all add: buildProcTree_closed [of rs rng, OF assms] buildProcTree2_closed [of rs rng, OF assms])
  moreover have "root < length ?h" "root < length ?h2" "Pid (?h ! root) = 1" "Pid (?h2 ! root) = 1"
    using lt p by simp_all
  ultimately show "\<exists>root h h2. buildProcTree rng rs = Inr (root, h) \<and>
          buildProcTree2 rng rs = Inr (root, h2) \<and> root < length h \<and> root < length h2 \<and>
          Pid (h ! root) = 1 \<and> Pid (h2 ! root) = 1"
    by blast
qed

lemmas build_eval = getPid_eval pidOf_def ppidOf_def extractable_def rangeOrder_def pidIndex_fold

theorem buildProcTree_root_witness:
  "extractable [] \<and> rangeOrder (pidIndex []) [] \<and>
   buildProcTree (\<lambda>m. []) [] = Inl RootNotFoundError \<and>
   buildProcTree2 (\<lambda>m. []) [] = Inl RootNotFoundError \<and>
   extractable [[''PID'' \<mapsto> ''1'', ''PPID'' \<mapsto> ''0'']] \<and>
   rangeOrder (pidIndex [[''PID'' \<mapsto> ''1'', ''PPID'' \<mapsto> ''0'']]) [(1, 0)] \<and>
   (\<exists>root h h2.
      buildProcTree (\<lambda>m. [(1, 0)]) [[''PID'' \<mapsto> ''1'', ''PPID'' \<mapsto> ''0'']] = Inr (root, h) \<and>
      buildProcTree2 (\<lambda>m. [(1, 0)]) [[''PID'' \<mapsto> ''1'', ''PPID'' \<mapsto> ''0'']] = Inr (root, h2) \<and>
      root < length h \<and> root < length h2 \<and> Pid (h ! root) = 1 \<and> Pid (h2 ! root) = 1)"
proof -
  let ?rs = "[[''PID'' \<mapsto> ''1'', ''PPID'' \<mapsto> ''0'']]"
  have e0: "extractable []" and r0: "rangeOrder (pidIndex []) ((\<lambda>m. []) (pidIndex []))"
    by (simp_all add: build_eval)
  have e1: "extractable ?rs" and r1: "rangeOrder (pidIndex ?rs) ((\<lambda>m. [(1, 0)]) (pidIndex ?rs))"
    and p1: "\<exists>r \<in> set ?rs. pidOf r = 1"
    by (simp_all add: build_eval)
  from buildProcTree_root [of "[]" "\<lambda>m. []", OF e0 r0]
  have a: "buildProcTree (\<lambda>m. []) [] = Inl RootNotFoundError \<and>
       buildProcTree2 (\<lambda>m. []) [] = Inl RootNotFoundError" by simp
  from buildProcTree_root [of ?rs "\<lambda>m. [(1, 0)]", OF e1 r1] p1
  have b: "\<exists>root h h2.
      buildProcTree (\<lambda>m. [(1, 0)]) ?rs = Inr (root, h) \<and>
      buildProcTree2 (\<lambda>m. [(1, 0)]) ?rs = Inr (root, h2) \<and>
      root < length h \<and> root < length h2 \<and> Pid (h ! root) = 1 \<and> Pid (h2 ! root) = 1"
    by blast
  from e0 r0 e1 r1 a b show ?thesis by simp
qed

text \<open>
  Claim C5, as the code has it. The node built for record \<^verbatim>\<open>i\<close> lives at address \<^verbatim>\<open>i\<close> and
  carries the pid extracted from the field \<^verbatim>\<open>PID\<close>. In src/rstat.go the node has no field
  for the parent pid and its stats are the whole record, the keys \<^verbatim>\<open>PID\<close> and \<^verbatim>\<open>PPID\<close>
  included. In the second revision the node also carries the parent pid extracted from
  \<^verbatim>\<open>PPID\<close>, and its stats are the record without the keys \<^verbatim>\<open>PID\<close> and \<^verbatim>\<open>PPID\<close>.
\<close>

theorem buildProcTree_nodes:
  assumes "extractable rs" and "rangeOrder (pidIndex rs) (rng (pidIndex rs))"
    and "\<exists>r \<in> set rs. pidOf r = 1"
  shows
   "\<exists>root h h2. buildProcTree rng rs = Inr (root, h) \<and> buildProcTree2 rng rs = Inr (root, h2) \<and>
      length h = length rs \<and> length h2 = length rs \<and>
      (\<forall>i<length rs.
         getPid (rs ! i) ''PID'' = Inr (pidOf (rs ! i)) \<and>
         getPid (rs ! i) ''PPID'' = Inr (ppidOf (rs ! i)) \<and>
         Pid (h ! i) = pidOf (rs ! i) \<and> Stats (h ! i) = rs ! i \<and>
         Pid (h2 ! i) = pidOf (rs ! i) \<and> ParentPid (h2 ! i) = ppidOf (rs ! i) \<and>
         Stats (h2 ! i) = (rs ! i)(''PID'' := None, ''PPID'' := None))"
proof -
  from assms(3) obtain root where root: "pidIndex rs 1 = Some root" using pidIndex_root by blast
  let ?h = "map (\<lambda>b. \<lparr>Pid = pidOf (rs ! b), Stats = rs ! b,
                   Children = childrenOf rs (rng (pidIndex rs)) b\<rparr>) [0..<length rs]"
  let ?h2 = "map (\<lambda>b. \<lparr>Pid = pidOf (rs ! b),
                   Stats = (rs ! b)(''PID'' := None, ''PPID'' := None),
                   Children = childrenOf rs (rng (pidIndex rs)) b,
                   ParentPid = ppidOf (rs ! b)\<rparr>) [0..<length rs]"
  have "buildProcTree rng rs = Inr (root, ?h)" "buildProcTree2 rng rs = Inr (root, ?h2)"
    using root
    by (simp_all add: buildProcTree_closed [of rs rng, OF assms(1,2)]
        buildProcTree2_closed [of rs rng, OF assms(1,2)])
  moreover have "length ?h = length rs" "length ?h2 = length rs" by simp_all
  moreover have "\<forall>i<length rs.
         getPid (rs ! i) ''PID'' = Inr (pidOf (rs ! i)) \<and>
         getPid (rs ! i) ''PPID'' = Inr (ppidOf (rs ! i)) \<and>
         Pid (?h ! i) = pidOf (rs ! i) \<and> Stats (?h ! i) = rs ! i \<and>
         Pid (?h2 ! i) = pidOf (rs ! i) \<and> ParentPid (?h2 ! i) = ppidOf (rs ! i) \<and>
         Stats (?h2 ! i) = (rs ! i)(''PID'' := None, ''PPID'' := None)"
    using extractable_nth [OF assms(1)] by simp
  ultimately show ?thesis by blast
qed

theorem buildProcTree_nodes_witness:
  "extractable [[''PID'' \<mapsto> ''1'', ''PPID'' \<mapsto> ''0'', ''%CPU'' \<mapsto> ''0.1'', ''%MEM'' \<mapsto> ''0.2'',
                 ''CMD'' \<mapsto> ''/sbin/init'']] \<and>
   rangeOrder (pidIndex [[''PID'' \<mapsto> ''1'', ''PPID'' \<mapsto> ''0'', ''%CPU'' \<mapsto> ''0.1'',
                 ''%MEM'' \<mapsto> ''0.2'', ''CMD'' \<mapsto> ''/sbin/init'']]) [(1, 0)] \<and>
   (\<exists>root h h2.
      buildProcTree2 (\<lambda>m. [(1, 0)]) [[''PID'' \<mapsto> ''1'', ''PPID'' \<mapsto> ''0'', ''%CPU'' \<mapsto> ''0.1'',
                 ''%MEM'' \<mapsto> ''0.2'', ''CMD'' \<mapsto> ''/sbin/init'']] = Inr (root, h2) \<and>
      Pid (h2 ! 0) = 1 \<and> ParentPid (h2 ! 0) = 0 \<and>
      Stats (h2 ! 0) = [''%CPU'' \<mapsto> ''0.1'', ''%MEM'' \<mapsto> ''0.2'', ''CMD'' \<mapsto> ''/sbin/init'']) \<and>
   buildProcTree2 (\<lambda>m. [(1, 0)]) [[''PID'' \<mapsto> ''1'', ''PPID'' \<mapsto> ''0'', ''%CPU'' \<mapsto> ''0.1'',
                 ''%MEM'' \<mapsto> ''0.2'', ''CMD'' \<mapsto> ''/sbin/init'']] =
     Inr (0, [\<lparr>Pid = 1, Stats = [''%CPU'' \<mapsto> ''0.1'', ''%MEM'' \<mapsto> ''0.2'', ''CMD'' \<mapsto> ''/sbin/init''],
               Children = [], ParentPid = 0\<rparr>])"
proof -
  let ?r = "[''PID'' \<mapsto> ''1'', ''PPID'' \<mapsto> ''0'', ''%CPU'' \<mapsto> ''0.1'', ''%MEM'' \<mapsto> ''0.2'',
             ''CMD'' \<mapsto> ''/sbin/init'']"
  have e: "extractable [?r]" and r: "rangeOrder (pidIndex [?r]) ((\<lambda>m. [(1, 0)]) (pidIndex [?r]))"
    and p: "\<exists>r \<in> set [?r]. pidOf r = 1"
    and v: "pidOf ?r = 1" "ppidOf ?r = 0"
    by (simp_all add: build_eval)
  have s: "?r(''PID'' := None, ''PPID'' := None) =
           [''%CPU'' \<mapsto> ''0.1'', ''%MEM'' \<mapsto> ''0.2'', ''CMD'' \<mapsto> ''/sbin/init'']"
    by (rule ext) simp
  from buildProcTree_nodes [of "[?r]" "\<lambda>m. [(1, 0)]", OF e r p]
  obtain root h h2 where b: "buildProcTree2 (\<lambda>m. [(1, 0)]) [?r] = Inr (root, h2)"
    and n: "Pid (h2 ! 0) = pidOf ?r" "ParentPid (h2 ! 0) = ppidOf ?r"
      "Stats (h2 ! 0) = ?r(''PID'' := None, ''PPID'' := None)"
    by auto
  have "\<exists>root h h2. buildProcTree2 (\<lambda>m. [(1, 0)]) [?r] = Inr (root, h2) \<and>
      Pid (h2 ! 0) = 1 \<and> ParentPid (h2 ! 0) = 0 \<and>
      Stats (h2 ! 0) = [''%CPU'' \<mapsto> ''0.1'', ''%MEM'' \<mapsto> ''0.2'', ''CMD'' \<mapsto> ''/sbin/init'']"
    using b n unfolding v s by blast
  moreover have "buildProcTree2 (\<lambda>m. [(1, 0)]) [?r] =
     Inr (0, [\<lparr>Pid = 1, Stats = [''%CPU'' \<mapsto> ''0.1'', ''%MEM'' \<mapsto> ''0.2'', ''CMD'' \<mapsto> ''/sbin/init''],
               Children = [], ParentPid = 0\<rparr>])"
    unfolding s [symmetric] by (simp add: buildProcTree2_def getPid_eval)
  ultimately show ?thesis using e r by simp
qed

text \<open>
  Claim C5 as stated fails in src/rstat.go: on the single record of the example the root
  keeps all five fields in its stats, \<^verbatim>\<open>PID\<close> and \<^verbatim>\<open>PPID\<close> among them.
\<close>

theorem buildProcTree_stats_counterexample:
  "buildProcTree (\<lambda>m. [(1, 0)]) [[''PID'' \<mapsto> ''1'', ''PPID'' \<mapsto> ''0'', ''%CPU'' \<mapsto> ''0.1'',
                 ''%MEM'' \<mapsto> ''0.2'', ''CMD'' \<mapsto> ''/sbin/init'']] =
     Inr (0, [\<lparr>Pid = 1, Stats = [''PID'' \<mapsto> ''1'', ''PPID'' \<mapsto> ''0'', ''%CPU'' \<mapsto> ''0.1'',
                 ''%MEM'' \<mapsto> ''0.2'', ''CMD'' \<mapsto> ''/sbin/init''], Children = []\<rparr>]) \<and>
   [''PID'' \<mapsto> ''1'', ''PPID'' \<mapsto> ''0'', ''%CPU'' \<mapsto> ''0.1'', ''%MEM'' \<mapsto> ''0.2'',
    ''CMD'' \<mapsto> ''/sbin/init''] ''PID'' = Some ''1''"
  by (simp add: buildProcTree_def getPid_eval)

text \<open>
  Claim C8. For every record list whose identifiers all extract, in both revisions the
  first loop does not fail and leaves in the index, for every pid, the node of the last
  record with that pid; when some record has pid 1 the builder succeeds, and every node
  of the result is the node built from the last record with its pid.
\<close>

theorem buildProcTree_last_wins:
  assumes "extractable rs" and "rangeOrder (pidIndex rs) (rng (pidIndex rs))"
  shows
   "(\<exists>h0. collectNodes rs [] Map.empty = Inr (h0, pidIndex rs)) \<and>
    (\<exists>h0. collectNodes2 rs [] Map.empty = Inr (h0, pidIndex rs)) \<and>
    (\<forall>p i. pidIndex rs p = Some i \<longleftrightarrow> lastWithPid rs i \<and> pidOf (rs ! i) = p) \<and>
    ((\<exists>r \<in> set rs. pidOf r = 1) \<longrightarrow>
       (\<exists>root h h2. buildProcTree rng rs = Inr (root, h) \<and> buildProcTree2 rng rs = Inr (root, h2) \<and>
          (\<forall>a \<in> reachable h root. lastWithPid rs a \<and> Stats (h ! a) = rs ! a) \<and>
          (\<forall>a \<in> reachable h2 root. lastWithPid rs a \<and>
             Stats (h2 ! a) = (rs ! a)(''PID'' := None, ''PPID'' := None))))"
proof (intro conjI impI allI)
  from assms(1) have x: "\<forall>r \<in> set rs. \<not> isl (getPid r ''PID'') \<and> \<not> isl (getPid r ''PPID'')"
    by (simp add: extractable_def list_all_iff)
  then show "\<exists>h0. collectNodes rs [] Map.empty = Inr (h0, pidIndex rs)"
    by (simp add: collectNodes_closed)
  from x show "\<exists>h0. collectNodes2 rs [] Map.empty = Inr (h0, pidIndex rs)"
    by (simp add: collectNodes2_closed)
next
  fix p i show "pidIndex rs p = Some i \<longleftrightarrow> lastWithPid rs i \<and> pidOf (rs ! i) = p"
    by (rule pidIndex_iff)
next
  assume "\<exists>r \<in> set rs. pidOf r = 1"
  then obtain root where root: "pidIndex rs 1 = Some root" using pidIndex_root by blast
  let ?es = "rng (pidIndex rs)"
  let ?h = "map (\<lambda>b. \<lparr>Pid = pidOf (rs ! b), Stats = rs ! b,
                   Children = childrenOf rs ?es b\<rparr>) [0..<length rs]"
  let ?h2 = "map (\<lambda>b. \<lparr>Pid = pidOf (rs ! b),
                   Stats = (rs ! b)(''PID'' := None, ''PPID'' := None),
                   Children = childrenOf rs ?es b,
                   ParentPid = ppidOf (rs ! b)\<rparr>) [0..<length rs]"
  have b: "buildProcTree rng rs = Inr (root, ?h)" "buildProcTree2 rng rs = Inr (root, ?h2)"
    using root
    by (simp_all add: buildProcTree_closed [of rs rng, OF assms(1,2)]
        buildProcTree2_closed [of rs rng, OF assms(1,2)])
  have "\<forall>a \<in> reachable ?h root. lastWithPid rs a \<and> Stats (?h ! a) = rs ! a"
  proof
    fix a assume "a \<in> reachable ?h root"
    from built_reachable [OF _ _ assms(2) root this]
    have l: "lastWithPid rs a" by simp
    then have "a < length rs" by (simp add: lastWithPid_def)
    with l show "lastWithPid rs a \<and> Stats (?h ! a) = rs ! a" by simp
  qed
  moreover have "\<forall>a \<in> reachable ?h2 root. lastWithPid rs a \<and>
             Stats (?h2 ! a) = (rs ! a)(''PID'' := None, ''PPID'' := None)"
  proof
    fix a assume "a \<in> reachable ?h2 root"
    from built_reachable [OF _ _ assms(2) root this]
    have l: "lastWithPid rs a" by simp
    then have "a < length rs" by (simp add: lastWithPid_def)
    with l show "lastWithPid rs a \<and> Stats (?h2 ! a) = (rs ! a)(''PID'' := None, ''PPID'' := None)"
      by simp
  qed
  ultimately show "\<exists>root h h2. buildProcTree rng rs = Inr (root, h) \<and>
      buildProcTree2 rng rs = Inr (root, h2) \<and>
          (\<forall>a \<in> reachable h root. lastWithPid rs a \<and> Stats (h ! a) = rs ! a) \<and>
          (\<forall>a \<in> reachable h2 root. lastWithPid rs a \<and>
             Stats (h2 ! a) = (rs ! a)(''PID'' := None, ''PPID'' := None))"
    using b by blast
qed

lemma unfolds_cong:
  fixes h :: "('a ProcNode_scheme) list" and h' :: "('b ProcNode_scheme) list"
  assumes "length h = length h'" and "\<forall>b<length h. Children (h ! b) = Children (h' ! b)"
  shows "unfolds h t \<longleftrightarrow> unfolds h' t"
proof (induction t)
  case (PNode a ts)
  then show ?case using assms by auto
qed

lemma reachable_cong:
  fixes h :: "('a ProcNode_scheme) list" and h' :: "('b ProcNode_scheme) list"
  assumes "length h = length h'" and "\<forall>b<length h. Children (h ! b) = Children (h' ! b)"
  shows "reachable h r = reachable h' r"
proof -
  have "{(a, c). a < length h \<and> c \<in> set (Children (h ! a))} =
        {(a, c). a < length h' \<and> c \<in> set (Children (h' ! a))}"
    using assms by auto
  then show ?thesis by (simp add: reachable_def)
qed

lemma ForEach_tree:
  "unfolds h t \<Longrightarrow>
   ForEach h (rootOf t) fn s = Some (fold (\<lambda>a. fn (Pid (h ! a)) (Stats (h ! a))) (preorder t) s)"
  by (simp add: ForEach_def Find_tree firstMatch_never)

text \<open>
  Claim C1, as the code has it. For every record list whose identifiers all extract, with
  a record of pid 1, and in which the parent links of pid 1 do not lead back to pid 1:
  the builder succeeds, in both revisions; what it returns unfolds to a finite tree
  without shared nodes, rooted at the node of pid 1; the nodes of the tree, which are the
  nodes reachable from the root and the nodes a full traversal visits, are exactly the
  records that are the last with their pid and whose parent links lead to pid 1. Every
  other record is absent, and no error is reported for it.
\<close>

theorem buildProcTree_tree:
  assumes "extractable rs" and "rangeOrder (pidIndex rs) (rng (pidIndex rs))"
    and "\<exists>r \<in> set rs. pidOf r = 1" and "\<not> rootLoop rs"
  shows
   "\<exists>root h h2 t. buildProcTree rng rs = Inr (root, h) \<and> buildProcTree2 rng rs = Inr (root, h2) \<and>
      unfolds h t \<and> unfolds h2 t \<and> rootOf t = root \<and> Pid (h ! root) = 1 \<and> Pid (h2 ! root) = 1 \<and>
      distinct (preorder t) \<and> set (preorder t) = {i. tracesToRoot rs i} \<and>
      reachable h root = {i. tracesToRoot rs i} \<and> reachable h2 root = {i. tracesToRoot rs i} \<and>
      ForEach h root fn s = Some (fold (\<lambda>a. fn (Pid (h ! a)) (Stats (h ! a))) (preorder t) s) \<and>
      ForEach h2 root fn s = Some (fold (\<lambda>a. fn (Pid (h2 ! a)) (Stats (h2 ! a))) (preorder t) s)"
proof -
  from assms(3) obtain root where root: "pidIndex rs 1 = Some root" using pidIndex_root by blast
  then have lt: "root < length rs" and p: "pidOf (rs ! root) = 1"
    by (simp_all add: pidIndex_iff lastWithPid_def)
  let ?es = "rng (pidIndex rs)"
  let ?h = "map (\<lambda>b. \<lparr>Pid = pidOf (rs ! b), Stats = rs ! b,
                   Children = childrenOf rs ?es b\<rparr>) [0..<length rs]"
  let ?h2 = "map (\<lambda>b. \<lparr>Pid = pidOf (rs ! b),
                   Stats = (rs ! b)(''PID'' := None, ''PPID'' := None),
                   Children = childrenOf rs ?es b,
                   ParentPid = ppidOf (rs ! b)\<rparr>) [0..<length rs]"
  have b: "buildProcTree rng rs = Inr (root, ?h)" "buildProcTree2 rng rs = Inr (root, ?h2)"
    using root
    by (simp_all add: buildProcTree_closed [of rs rng, OF assms(1,2)]
        buildProcTree2_closed [of rs rng, OF assms(1,2)])
  have len: "length ?h = length rs" and ch: "\<forall>b<length rs. Children (?h ! b) = childrenOf rs ?es b"
    by simp_all
  from built_tree [OF len ch assms(2) root assms(4)]
  obtain t where t: "unfolds ?h t" "rootOf t = root" "distinct (preorder t)"
    "set (preorder t) = {i. tracesToRoot rs i}" by blast
  have same: "length ?h = length ?h2" "\<forall>b<length ?h. Children (?h ! b) = Children (?h2 ! b)"
    by simp_all
  from t(1) unfolds_cong [OF same] have t2: "unfolds ?h2 t" by simp
  have r1: "reachable ?h root = {i. tracesToRoot rs i}"
    using preorder_reachable [OF t(1)] t(2,4) by simp
  have r2: "reachable ?h2 root = {i. tracesToRoot rs i}"
    using preorder_reachable [OF t2] t(2,4) by simp
  have f1: "ForEach ?h root fn s =
      Some (fold (\<lambda>a. fn (Pid (?h ! a)) (Stats (?h ! a))) (preorder t) s)"
    using ForEach_tree [OF t(1), of fn s] t(2) by simp
  have f2: "ForEach ?h2 root fn s =
      Some (fold (\<lambda>a. fn (Pid (?h2 ! a)) (Stats (?h2 ! a))) (preorder t) s)"
    using ForEach_tree [OF t2, of fn s] t(2) by simp
  have "Pid (?h ! root) = 1" "Pid (?h2 ! root) = 1" using lt p by simp_all
  with b t t2 r1 r2 f1 f2 show ?thesis by blast
qed

lemma Find_loop_never:
  assumes "Find_loop h pred node stack s = Some y"
  shows "Children (h ! 0) = [0] \<longrightarrow> (\<forall>p st s. \<not> fst (pred p st s)) \<longrightarrow>
         stack \<noteq> [] \<longrightarrow> stack ! (length stack - 1) = [0] \<longrightarrow> False"
  using assms
proof (induction h pred node stack s y rule: Find_loop.raw_induct [rotated, consumes 1, case_names step])
  case (step f h pred node stack s y)
  show ?case
  proof (intro impI)
    assume c: "Children (h ! 0) = [0]" and n: "\<forall>p st s. \<not> fst (pred p st s)"
      and ne: "stack \<noteq> []" and top: "stack ! (length stack - 1) = [0]"
    obtain b s' where p: "pred (Pid (h ! 0)) (Stats (h ! 0)) s = (b, s')"
      by (cases "pred (Pid (h ! 0)) (Stats (h ! 0)) s")
    with n have "\<not> b" by (metis fst_conv)
    with p c top have "iterNodes h stack pred s =
        (None, stack[length stack - 1 := []] @ [[0]], s')"
      by (simp add: iterNodes_def)
    with step.hyps ne have "f h pred None (stack[length stack - 1 := []] @ [[0]]) s' = Some y"
      by simp
    from step.IH [OF this] c n show False by (simp add: nth_append)
  qed
qed

lemma Find_self_loop:
  assumes "Children (h ! 0) = [0]" and "\<forall>p st s. \<not> fst (pred p st s)"
  shows "Find h 0 pred s = None"
proof -
  obtain b s' where p: "pred (Pid (h ! 0)) (Stats (h ! 0)) s = (b, s')"
    by (cases "pred (Pid (h ! 0)) (Stats (h ! 0)) s")
  with assms(2) have nb: "\<not> b" by (metis fst_conv)
  obtain b' s'' where p': "pred (Pid (h ! 0)) (Stats (h ! 0)) s' = (b', s'')"
    by (cases "pred (Pid (h ! 0)) (Stats (h ! 0)) s'")
  with assms(2) have "\<not> b'" by (metis fst_conv)
  with p' assms(1) have "iterNodes h [[0]] pred s' = (None, [[], [0]], s'')"
    by (simp add: iterNodes_def)
  with p nb assms(1) have "Find h 0 pred s = Find_loop h pred None [[], [0]] s''"
    by (simp add: Find_def)
  moreover have "Find_loop h pred None [[], [0]] s'' = None"
  proof (cases "Find_loop h pred None [[], [0]] s''")
    case None
    then show ?thesis .
  next
    case (Some y)
    from Find_loop_never [OF this] assms have False by simp
    then show ?thesis ..
  qed
  ultimately show ?thesis by simp
qed

theorem buildProcTree_tree_witness:
  "extractable [[''PID'' \<mapsto> ''1'', ''PPID'' \<mapsto> ''0''], [''PID'' \<mapsto> ''2'', ''PPID'' \<mapsto> ''1''],
      [''PID'' \<mapsto> ''4'', ''PPID'' \<mapsto> ''3'']] \<and>
   rangeOrder (pidIndex [[''PID'' \<mapsto> ''1'', ''PPID'' \<mapsto> ''0''], [''PID'' \<mapsto> ''2'', ''PPID'' \<mapsto> ''1''],
      [''PID'' \<mapsto> ''4'', ''PPID'' \<mapsto> ''3'']]) [(4, 2), (2, 1), (1, 0)] \<and>
   (\<exists>r \<in> set [[''PID'' \<mapsto> ''1'', ''PPID'' \<mapsto> ''0''], [''PID'' \<mapsto> ''2'', ''PPID'' \<mapsto> ''1''],
      [''PID'' \<mapsto> ''4'', ''PPID'' \<mapsto> ''3'']]. pidOf r = 1) \<and>
   \<not> rootLoop [[''PID'' \<mapsto> ''1'', ''PPID'' \<mapsto> ''0''], [''PID'' \<mapsto> ''2'', ''PPID'' \<mapsto> ''1''],
      [''PID'' \<mapsto> ''4'', ''PPID'' \<mapsto> ''3'']] \<and>
   tracesToRoot [[''PID'' \<mapsto> ''1'', ''PPID'' \<mapsto> ''0''], [''PID'' \<mapsto> ''2'', ''PPID'' \<mapsto> ''1''],
      [''PID'' \<mapsto> ''4'', ''PPID'' \<mapsto> ''3'']] 1 \<and>
   \<not> tracesToRoot [[''PID'' \<mapsto> ''1'', ''PPID'' \<mapsto> ''0''], [''PID'' \<mapsto> ''2'', ''PPID'' \<mapsto> ''1''],
      [''PID'' \<mapsto> ''4'', ''PPID'' \<mapsto> ''3'']] 2 \<and>
   (\<exists>root h h2 t.
      buildProcTree (\<lambda>m. [(4, 2), (2, 1), (1, 0)]) [[''PID'' \<mapsto> ''1'', ''PPID'' \<mapsto> ''0''], [''PID'' \<mapsto> ''2'', ''PPID'' \<mapsto> ''1''],
      [''PID'' \<mapsto> ''4'', ''PPID'' \<mapsto> ''3'']] = Inr (root, h) \<and>
      buildProcTree2 (\<lambda>m. [(4, 2), (2, 1), (1, 0)]) [[''PID'' \<mapsto> ''1'', ''PPID'' \<mapsto> ''0''], [''PID'' \<mapsto> ''2'', ''PPID'' \<mapsto> ''1''],
      [''PID'' \<mapsto> ''4'', ''PPID'' \<mapsto> ''3'']] = Inr (root, h2) \<and>
      unfolds h t \<and> unfolds h2 t \<and> rootOf t = root \<and> Pid (h ! root) = 1 \<and> Pid (h2 ! root) = 1 \<and>
      distinct (preorder t) \<and> set (preorder t) = {i. tracesToRoot [[''PID'' \<mapsto> ''1'', ''PPID'' \<mapsto> ''0''], [''PID'' \<mapsto> ''2'', ''PPID'' \<mapsto> ''1''],
      [''PID'' \<mapsto> ''4'', ''PPID'' \<mapsto> ''3'']] i} \<and>
      reachable h root = {i. tracesToRoot [[''PID'' \<mapsto> ''1'', ''PPID'' \<mapsto> ''0''], [''PID'' \<mapsto> ''2'', ''PPID'' \<mapsto> ''1''],
      [''PID'' \<mapsto> ''4'', ''PPID'' \<mapsto> ''3'']] i} \<and>
      reachable h2 root = {i. tracesToRoot [[''PID'' \<mapsto> ''1'', ''PPID'' \<mapsto> ''0''], [''PID'' \<mapsto> ''2'', ''PPID'' \<mapsto> ''1''],
      [''PID'' \<mapsto> ''4'', ''PPID'' \<mapsto> ''3'']] i} \<and>
      ForEach h root (\<lambda>pid st log. log @ [pid]) [] =
        Some (fold (\<lambda>a. (\<lambda>pid st log. log @ [pid]) (Pid (h ! a)) (Stats (h ! a))) (preorder t) []) \<and>
      ForEach h2 root (\<lambda>pid st log. log @ [pid]) [] =
        Some (fold (\<lambda>a. (\<lambda>pid st log. log @ [pid]) (Pid (h2 ! a)) (Stats (h2 ! a))) (preorder t) [])) \<and>
   buildProcTree (\<lambda>m. [(4, 2), (2, 1), (1, 0)]) [[''PID'' \<mapsto> ''1'', ''PPID'' \<mapsto> ''0''], [''PID'' \<mapsto> ''2'', ''PPID'' \<mapsto> ''1''],
      [''PID'' \<mapsto> ''4'', ''PPID'' \<mapsto> ''3'']] =
     Inr (0, [\<lparr>Pid = 1, Stats = [''PID'' \<mapsto> ''1'', ''PPID'' \<mapsto> ''0''], Children = [1]\<rparr>,
              \<lparr>Pid = 2, Stats = [''PID'' \<mapsto> ''2'', ''PPID'' \<mapsto> ''1''], Children = []\<rparr>,
              \<lparr>Pid = 4, Stats = [''PID'' \<mapsto> ''4'', ''PPID'' \<mapsto> ''3''], Children = []\<rparr>])"
proof -
  let ?rs = "[[''PID'' \<mapsto> ''1'', ''PPID'' \<mapsto> ''0''], [''PID'' \<mapsto> ''2'', ''PPID'' \<mapsto> ''1''],
      [''PID'' \<mapsto> ''4'', ''PPID'' \<mapsto> ''3'']]"
  let ?es = "[(4, 2), (2, 1), (1, 0)] :: (int \<times> nat) list"
  have e: "extractable ?rs"
    and p: "\<exists>r \<in> set ?rs. pidOf r = 1" and p1: "pidOf [''PID'' \<mapsto> ''1'', ''PPID'' \<mapsto> ''0''] = 1"
    and p2: "pidOf [''PID'' \<mapsto> ''2'', ''PPID'' \<mapsto> ''1''] = 2"
    and p4: "pidOf [''PID'' \<mapsto> ''4'', ''PPID'' \<mapsto> ''3''] = 4"
    by (simp_all add: build_eval)
  have pi: "pidIndex ?rs = [1 \<mapsto> 0, 2 \<mapsto> 1, 4 \<mapsto> 2]"
    by (simp add: pidIndex_fold p1 p2 p4 numeral_2_eq_2)
  have r: "rangeOrder (pidIndex ?rs) ((\<lambda>m. ?es) (pidIndex ?rs))"
    unfolding pi by (simp add: rangeOrder_def)
  have par: "parentOf ?rs 0 = None" "parentOf ?rs 1 = Some 0" "parentOf ?rs 2 = None"
    unfolding parentOf_def pi by (simp_all add: getPid_eval pidOf_def ppidOf_def lastWithPid_def)
  from par(2) have par1: "parentOf ?rs (Suc 0) = Some 0" by simp
  have nl: "\<not> rootLoop ?rs" unfolding rootLoop_def pi by (simp add: par)
  have t1: "tracesToRoot ?rs 1"
  proof -
    have "pidIndex ?rs 1 = Some 0 \<and> ancestor ?rs (Suc 0) 1 = Some 0" unfolding pi by (simp add: par1)
    then show ?thesis unfolding tracesToRoot_def by blast
  qed
  have t2: "\<not> tracesToRoot ?rs 2"
  proof -
    have "ancestor ?rs k 2 \<noteq> Some 0" for k by (cases k) (simp_all add: par)
    then show ?thesis unfolding tracesToRoot_def pi by simp
  qed
  have x: "\<exists>root h h2 t.
      buildProcTree (\<lambda>m. ?es) ?rs = Inr (root, h) \<and>
      buildProcTree2 (\<lambda>m. ?es) ?rs = Inr (root, h2) \<and>
      unfolds h t \<and> unfolds h2 t \<and> rootOf t = root \<and> Pid (h ! root) = 1 \<and> Pid (h2 ! root) = 1 \<and>
      distinct (preorder t) \<and> set (preorder t) = {i. tracesToRoot ?rs i} \<and>
      reachable h root = {i. tracesToRoot ?rs i} \<and>
      reachable h2 root = {i. tracesToRoot ?rs i} \<and>
      ForEach h root (\<lambda>pid st log. log @ [pid]) [] =
        Some (fold (\<lambda>a. (\<lambda>pid st log. log @ [pid]) (Pid (h ! a)) (Stats (h ! a))) (preorder t) []) \<and>
      ForEach h2 root (\<lambda>pid st log. log @ [pid]) [] =
        Some (fold (\<lambda>a. (\<lambda>pid st log. log @ [pid]) (Pid (h2 ! a)) (Stats (h2 ! a))) (preorder t) [])"
    by (rule buildProcTree_tree [of ?rs "\<lambda>m. ?es" "\<lambda>pid st log. log @ [pid]" "[]", OF e r p nl])
  have b: "buildProcTree (\<lambda>m. ?es) ?rs =
     Inr (0, [\<lparr>Pid = 1, Stats = [''PID'' \<mapsto> ''1'', ''PPID'' \<mapsto> ''0''], Children = [1]\<rparr>,
              \<lparr>Pid = 2, Stats = [''PID'' \<mapsto> ''2'', ''PPID'' \<mapsto> ''1''], Children = []\<rparr>,
              \<lparr>Pid = 4, Stats = [''PID'' \<mapsto> ''4'', ''PPID'' \<mapsto> ''3''], Children = []\<rparr>])"
    by (simp add: buildProcTree_def getPid_eval)
  show ?thesis by (intro conjI) (fact e r p nl t1 t2 x b)+
qed

theorem buildProcTree_last_wins_witness:
  "extractable [[''PID'' \<mapsto> ''1'', ''PPID'' \<mapsto> ''0'', ''CMD'' \<mapsto> ''old''],
      [''PID'' \<mapsto> ''1'', ''PPID'' \<mapsto> ''0'', ''CMD'' \<mapsto> ''new'']] \<and>
   rangeOrder (pidIndex [[''PID'' \<mapsto> ''1'', ''PPID'' \<mapsto> ''0'', ''CMD'' \<mapsto> ''old''],
      [''PID'' \<mapsto> ''1'', ''PPID'' \<mapsto> ''0'', ''CMD'' \<mapsto> ''new'']]) [(1, 1)] \<and>
   pidIndex [[''PID'' \<mapsto> ''1'', ''PPID'' \<mapsto> ''0'', ''CMD'' \<mapsto> ''old''],
      [''PID'' \<mapsto> ''1'', ''PPID'' \<mapsto> ''0'', ''CMD'' \<mapsto> ''new'']] 1 = Some 1 \<and>
   lastWithPid [[''PID'' \<mapsto> ''1'', ''PPID'' \<mapsto> ''0'', ''CMD'' \<mapsto> ''old''],
      [''PID'' \<mapsto> ''1'', ''PPID'' \<mapsto> ''0'', ''CMD'' \<mapsto> ''new'']] 1 \<and>
   \<not> lastWithPid [[''PID'' \<mapsto> ''1'', ''PPID'' \<mapsto> ''0'', ''CMD'' \<mapsto> ''old''],
      [''PID'' \<mapsto> ''1'', ''PPID'' \<mapsto> ''0'', ''CMD'' \<mapsto> ''new'']] 0 \<and>
   (\<exists>root h h2. buildProcTree (\<lambda>m. [(1, 1)]) [[''PID'' \<mapsto> ''1'', ''PPID'' \<mapsto> ''0'', ''CMD'' \<mapsto> ''old''],
      [''PID'' \<mapsto> ''1'', ''PPID'' \<mapsto> ''0'', ''CMD'' \<mapsto> ''new'']] = Inr (root, h) \<and>
      buildProcTree2 (\<lambda>m. [(1, 1)]) [[''PID'' \<mapsto> ''1'', ''PPID'' \<mapsto> ''0'', ''CMD'' \<mapsto> ''old''],
      [''PID'' \<mapsto> ''1'', ''PPID'' \<mapsto> ''0'', ''CMD'' \<mapsto> ''new'']] = Inr (root, h2) \<and>
      (\<forall>a \<in> reachable h root. lastWithPid [[''PID'' \<mapsto> ''1'', ''PPID'' \<mapsto> ''0'', ''CMD'' \<mapsto> ''old''],
      [''PID'' \<mapsto> ''1'', ''PPID'' \<mapsto> ''0'', ''CMD'' \<mapsto> ''new'']] a \<and> Stats (h ! a) = [[''PID'' \<mapsto> ''1'', ''PPID'' \<mapsto> ''0'', ''CMD'' \<mapsto> ''old''],
      [''PID'' \<mapsto> ''1'', ''PPID'' \<mapsto> ''0'', ''CMD'' \<mapsto> ''new'']] ! a) \<and>
      (\<forall>a \<in> reachable h2 root. lastWithPid [[''PID'' \<mapsto> ''1'', ''PPID'' \<mapsto> ''0'', ''CMD'' \<mapsto> ''old''],
      [''PID'' \<mapsto> ''1'', ''PPID'' \<mapsto> ''0'', ''CMD'' \<mapsto> ''new'']] a \<and>
         Stats (h2 ! a) = ([[''PID'' \<mapsto> ''1'', ''PPID'' \<mapsto> ''0'', ''CMD'' \<mapsto> ''old''],
      [''PID'' \<mapsto> ''1'', ''PPID'' \<mapsto> ''0'', ''CMD'' \<mapsto> ''new'']] ! a)(''PID'' := None, ''PPID'' := None))) \<and>
   buildProcTree (\<lambda>m. [(1, 1)]) [[''PID'' \<mapsto> ''1'', ''PPID'' \<mapsto> ''0'', ''CMD'' \<mapsto> ''old''],
      [''PID'' \<mapsto> ''1'', ''PPID'' \<mapsto> ''0'', ''CMD'' \<mapsto> ''new'']] =
     Inr (1, [\<lparr>Pid = 1, Stats = [''PID'' \<mapsto> ''1'', ''PPID'' \<mapsto> ''0'', ''CMD'' \<mapsto> ''old''], Children = []\<rparr>,
              \<lparr>Pid = 1, Stats = [''PID'' \<mapsto> ''1'', ''PPID'' \<mapsto> ''0'', ''CMD'' \<mapsto> ''new''], Children = []\<rparr>])"
proof -
  let ?rs = "[[''PID'' \<mapsto> ''1'', ''PPID'' \<mapsto> ''0'', ''CMD'' \<mapsto> ''old''],
      [''PID'' \<mapsto> ''1'', ''PPID'' \<mapsto> ''0'', ''CMD'' \<mapsto> ''new'']]"
  have e: "extractable ?rs" and p: "\<exists>r \<in> set ?rs. pidOf r = 1"
    and pa: "pidOf [''PID'' \<mapsto> ''1'', ''PPID'' \<mapsto> ''0'', ''CMD'' \<mapsto> ''old''] = 1"
    and pb: "pidOf [''PID'' \<mapsto> ''1'', ''PPID'' \<mapsto> ''0'', ''CMD'' \<mapsto> ''new''] = 1"
    by (simp_all add: build_eval)
  have pi: "pidIndex ?rs = [1 \<mapsto> 1]" by (simp add: pidIndex_fold pa pb)
  have r: "rangeOrder (pidIndex ?rs) ((\<lambda>m. [(1, 1)]) (pidIndex ?rs))"
    unfolding pi by (simp add: rangeOrder_def)
  have i: "pidIndex ?rs 1 = Some 1" unfolding pi by simp
  have l0: "\<not> lastWithPid ?rs 0" by (simp add: lastWithPid_def pa pb)
  from buildProcTree_last_wins [of ?rs "\<lambda>m. [(1, 1)]", OF e r]
  have iff: "pidIndex ?rs 1 = Some 1 \<longleftrightarrow> lastWithPid ?rs 1 \<and> pidOf (?rs ! 1) = 1"
    and imp: "(\<exists>r \<in> set ?rs. pidOf r = 1) \<longrightarrow>
      (\<exists>root h h2. buildProcTree (\<lambda>m. [(1, 1)]) ?rs = Inr (root, h) \<and>
      buildProcTree2 (\<lambda>m. [(1, 1)]) ?rs = Inr (root, h2) \<and>
      (\<forall>a \<in> reachable h root. lastWithPid ?rs a \<and> Stats (h ! a) = ?rs ! a) \<and>
      (\<forall>a \<in> reachable h2 root. lastWithPid ?rs a \<and>
         Stats (h2 ! a) = (?rs ! a)(''PID'' := None, ''PPID'' := None)))"
    by blast+
  from iff i have l1: "lastWithPid ?rs 1" by blast
  from imp p have x: "\<exists>root h h2. buildProcTree (\<lambda>m. [(1, 1)]) ?rs = Inr (root, h) \<and>
      buildProcTree2 (\<lambda>m. [(1, 1)]) ?rs = Inr (root, h2) \<and>
      (\<forall>a \<in> reachable h root. lastWithPid ?rs a \<and> Stats (h ! a) = ?rs ! a) \<and>
      (\<forall>a \<in> reachable h2 root. lastWithPid ?rs a \<and>
         Stats (h2 ! a) = (?rs ! a)(''PID'' := None, ''PPID'' := None))" by (rule mp)
  have b: "buildProcTree (\<lambda>m. [(1, 1)]) ?rs =
     Inr (1, [\<lparr>Pid = 1, Stats = [''PID'' \<mapsto> ''1'', ''PPID'' \<mapsto> ''0'', ''CMD'' \<mapsto> ''old''], Children = []\<rparr>,
              \<lparr>Pid = 1, Stats = [''PID'' \<mapsto> ''1'', ''PPID'' \<mapsto> ''0'', ''CMD'' \<mapsto> ''new''], Children = []\<rparr>])"
    by (simp add: buildProcTree_def getPid_eval)
  show ?thesis by (intro conjI) (fact e r i l1 l0 x b)+
qed

text \<open>
  Claim C1 as stated fails on a record list in which pid 1 is its own parent: the
  builder accepts it and returns a root that is its own child, in both revisions, and the
  full traversal of that result does not return.
\<close>

theorem buildProcTree_cycle_counterexample:
  "extractable [[''PID'' \<mapsto> ''1'', ''PPID'' \<mapsto> ''1'']] \<and>
   rangeOrder (pidIndex [[''PID'' \<mapsto> ''1'', ''PPID'' \<mapsto> ''1'']]) [(1, 0)] \<and>
   buildProcTree (\<lambda>m. [(1, 0)]) [[''PID'' \<mapsto> ''1'', ''PPID'' \<mapsto> ''1'']] =
     Inr (0, [\<lparr>Pid = 1, Stats = [''PID'' \<mapsto> ''1'', ''PPID'' \<mapsto> ''1''], Children = [0]\<rparr>]) \<and>
   buildProcTree2 (\<lambda>m. [(1, 0)]) [[''PID'' \<mapsto> ''1'', ''PPID'' \<mapsto> ''1'']] =
     Inr (0, [\<lparr>Pid = 1, Stats = Map.empty, Children = [0], ParentPid = 1\<rparr>]) \<and>
   ForEach [\<lparr>Pid = 1, Stats = [''PID'' \<mapsto> ''1'', ''PPID'' \<mapsto> ''1''], Children = [0]\<rparr>] 0
     (\<lambda>pid stats n. Suc n) 0 = None"
proof -
  let ?rs = "[[''PID'' \<mapsto> ''1'', ''PPID'' \<mapsto> ''1'']]"
  let ?h = "[\<lparr>Pid = 1, Stats = [''PID'' \<mapsto> ''1'', ''PPID'' \<mapsto> ''1''], Children = [0]\<rparr>]"
  have e: "extractable ?rs" and r: "rangeOrder (pidIndex ?rs) [(1, 0)]"
    by (simp_all add: build_eval)
  have b: "buildProcTree (\<lambda>m. [(1, 0)]) ?rs = Inr (0, ?h)"
    by (simp add: buildProcTree_def getPid_eval)
  have s: "[''PID'' \<mapsto> ''1'', ''PPID'' \<mapsto> ''1''](''PID'' := None, ''PPID'' := None) = Map.empty"
    by (rule ext) simp
  have b2: "buildProcTree2 (\<lambda>m. [(1, 0)]) ?rs =
     Inr (0, [\<lparr>Pid = 1, Stats = Map.empty, Children = [0], ParentPid = 1\<rparr>])"
  proof -
    have "buildProcTree2 (\<lambda>m. [(1, 0)]) ?rs =
      Inr (0, [\<lparr>Pid = 1,
                 Stats = [''PID'' \<mapsto> ''1'', ''PPID'' \<mapsto> ''1''](''PID'' := None, ''PPID'' := None),
                 Children = [0], ParentPid = 1\<rparr>])"
      by (simp add: buildProcTree2_def getPid_eval)
    then show ?thesis by (simp only: s)
  qed
  have "Find ?h 0 (\<lambda>pid stats n. (False, Suc n)) 0 = None"
    by (rule Find_self_loop) simp_all
  then have f: "ForEach ?h 0 (\<lambda>pid stats n. Suc n) 0 = None" by (simp add: ForEach_def)
  show ?thesis by (intro conjI) (fact e r b b2 f)+
qed

end
